theory Spec2Isabelle
  imports Complex_Main "HOL-Library.Sublist" "HOL-Library.Log_Nat"
begin

unbundle bit_operations_syntax

section \<open>The type double\<close>

text \<open>
  The benefit of an item is a C++ \<^verbatim>\<open>double\<close>, an IEEE 754 binary64 number. A finite
  double is a rational \<open>m * 2^e\<close> with \<open>\<bar>m\<bar> < 2^53\<close> and \<open>-1074 \<le> e \<le> 971\<close>; the other
  values are the two infinities and NaN. The solvers only add, subtract and compare
  doubles, which does not tell \<open>-0.0\<close> from \<open>0.0\<close>, so the model has one zero.
\<close>

datatype double = Finite rat | PInf | NInf | NaN

text \<open>\<open>ilog2 a\<close> is the exponent of the binade of \<open>a > 0\<close>: \<open>2^(ilog2 a) \<le> a < 2^(ilog2 a + 1)\<close>.\<close>

definition ilog2 :: "rat \<Rightarrow> int" where
  "ilog2 a = (let (p, q) = quotient_of a; d = bitlen p - bitlen q
              in if 2 powi d \<le> a then d else d - 1)"

text \<open>Rounding to the nearest integer, a tie going to the even one.\<close>

definition round_half_even :: "rat \<Rightarrow> int" where
  "round_half_even x =
     (let f = \<lfloor>x\<rfloor>; r = x - of_int f
      in if r < 1 / 2 then f else if 1 / 2 < r then f + 1 else if even f then f else f + 1)"

text \<open>
  The rounding of every arithmetic operation, in the default mode (to nearest, ties to
  even): the exact result is rounded to a multiple of the unit in the last place of its
  binade, \<open>2^(ilog2 \<bar>x\<bar> - 52)\<close>, and never finer than \<open>2^(-1074)\<close>; a rounded result
  whose binade is that of \<open>2^1024\<close> or above is infinite.
\<close>

definition finite_or_inf :: "rat \<Rightarrow> double" where
  "finite_or_inf y =
     (if y = 0 then Finite 0
      else if ilog2 \<bar>y\<bar> < 1024 then Finite y
      else if 0 < y then PInf else NInf)"

definition round_to_unit :: "rat \<Rightarrow> int \<Rightarrow> double" where
  "round_to_unit x u = finite_or_inf (of_int (round_half_even (x / 2 powi u)) * 2 powi u)"

definition round_double :: "rat \<Rightarrow> double" where
  "round_double x =
     (if x = 0 then Finite 0 else round_to_unit x (max (ilog2 \<bar>x\<bar> - 52) (- 1074)))"

text \<open>A rational is the value of a double when rounding leaves it as it is.\<close>

definition representable :: "rat \<Rightarrow> bool" where
  "representable x \<longleftrightarrow> round_double x = Finite x"

fun dneg :: "double \<Rightarrow> double" where
  "dneg (Finite x) = Finite (- x)"
| "dneg PInf = NInf"
| "dneg NInf = PInf"
| "dneg NaN = NaN"

fun dadd :: "double \<Rightarrow> double \<Rightarrow> double" where
  "dadd (Finite x) (Finite y) = round_double (x + y)"
| "dadd NaN b = NaN"
| "dadd a NaN = NaN"
| "dadd PInf NInf = NaN"
| "dadd NInf PInf = NaN"
| "dadd PInf b = PInf"
| "dadd a PInf = PInf"
| "dadd NInf b = NInf"
| "dadd a NInf = NInf"

definition dsub :: "double \<Rightarrow> double \<Rightarrow> double" where
  "dsub a b = dadd a (dneg b)"

text \<open>\<^verbatim>\<open>a < b\<close> and \<^verbatim>\<open>a != b\<close>: every ordered comparison with NaN is false, and NaN differs from everything.\<close>

fun dless :: "double \<Rightarrow> double \<Rightarrow> bool" where
  "dless (Finite x) (Finite y) = (x < y)"
| "dless NaN b = False"
| "dless a NaN = False"
| "dless a NInf = False"
| "dless PInf b = False"
| "dless NInf b = True"
| "dless a PInf = True"

definition dneq :: "double \<Rightarrow> double \<Rightarrow> bool" where
  "dneq a b \<longleftrightarrow> a = NaN \<or> b = NaN \<or> a \<noteq> b"

text \<open>\<^verbatim>\<open>std::max(a, b)\<close> is \<^verbatim>\<open>(a < b) ? b : a\<close>.\<close>

definition dmax :: "double \<Rightarrow> double \<Rightarrow> double" where
  "dmax a b = (if dless a b then b else a)"

section \<open>Data model of maxdefense.hh\<close>

text \<open>
  \<^verbatim>\<open>class ArmorItem\<close> has three private fields read through \<^verbatim>\<open>description()\<close>,
  \<^verbatim>\<open>cost()\<close> and \<^verbatim>\<open>defense()\<close>. The cost is a C++ \<^verbatim>\<open>int\<close>, modelled as an
  \<^typ>\<open>int\<close> with the places where the source can leave the 32-bit range written out
  as error results. The defense is a \<^typ>\<open>double\<close>. An \<^verbatim>\<open>ArmorVector\<close> is a vector
  of shared pointers to items that are never modified; it is modelled as the list of
  the items.
\<close>

record ArmorItem =
  description :: string
  cost :: int
  defense :: double

type_synonym ArmorVector = "ArmorItem list"

text \<open>
  What stops a call instead of a result: \<^verbatim>\<open>std::out_of_range\<close> thrown by
  \<^verbatim>\<open>vector::at\<close>, a failed \<^verbatim>\<open>assert\<close>, and the two kinds of undefined behaviour of
  \<^verbatim>\<open>int\<close> arithmetic that the solvers can reach: signed overflow, and a shift by at
  least the width of the type. An \<^verbatim>\<open>int\<close> has 32 bits. Where the behaviour is
  undefined the language promises no result, so the model returns none; on hardware
  that wraps around, the counter of the exhaustive search then never leaves its loop.
\<close>

datatype error = OutOfRange | AssertionFailed | SignedOverflow | ShiftTooWide

definition INT_MAX :: int where
  "INT_MAX = 2147483647"

definition INT_MIN :: int where
  "INT_MIN = - 2147483648"

definition int_add :: "int \<Rightarrow> int \<Rightarrow> error + int" where
  "int_add a b =
     (if INT_MIN \<le> a + b \<and> a + b \<le> INT_MAX then Inr (a + b) else Inl SignedOverflow)"

definition int_sub :: "int \<Rightarrow> int \<Rightarrow> error + int" where
  "int_sub a b =
     (if INT_MIN \<le> a - b \<and> a - b \<le> INT_MAX then Inr (a - b) else Inl SignedOverflow)"

text \<open>
  \<^verbatim>\<open>v.at(k)\<close>: the index is converted to \<^verbatim>\<open>size_t\<close>, so a negative \<^verbatim>\<open>int\<close>
  becomes a huge index and throws like any index past the end.
\<close>

definition vector_at :: "'a list \<Rightarrow> int \<Rightarrow> error + 'a" where
  "vector_at v k = (if 0 \<le> k \<and> k < int (length v) then Inr (v ! nat k) else Inl OutOfRange)"

section \<open>sum\_armor\_vector\<close>

text \<open>
  \<^verbatim>\<open>total_cost = total_defense = 0; for (auto& armor : armors) { total_cost +=
  armor->cost(); total_defense += armor->defense(); }\<close>
  with \<^verbatim>\<open>int& total_cost\<close> and \<^verbatim>\<open>double& total_defense\<close>.
\<close>

fun sum_loop :: "ArmorVector \<Rightarrow> int \<Rightarrow> double \<Rightarrow> error + (int \<times> double)" where
  "sum_loop [] total_cost total_defense = Inr (total_cost, total_defense)"
| "sum_loop (armor # rest) total_cost total_defense =
     (case int_add total_cost (cost armor) of
        Inl e \<Rightarrow> Inl e
      | Inr c \<Rightarrow> sum_loop rest c (dadd total_defense (defense armor)))"

definition sum_armor_vector :: "ArmorVector \<Rightarrow> error + (int \<times> double)" where
  "sum_armor_vector armors = sum_loop armors 0 (Finite 0)"

section \<open>dynamic\_max\_defense\<close>

text \<open>
  The body of the inner loop, lines 296 to 305: the value pushed onto row \<open>i\<close> at
  column \<open>j\<close>. \<^verbatim>\<open>matrix[i-1]\<close> is only read for \<open>i \<ge> 1\<close>, when the rows
  \<open>0..i-1\<close> have been pushed.
\<close>

definition cell :: "ArmorVector \<Rightarrow> double list list \<Rightarrow> nat \<Rightarrow> int \<Rightarrow> error + double" where
  "cell armors matrix i j =
     (if i = 0 \<or> j = 0 then Inr (Finite 0)
      else
        case vector_at armors (int i - 1) of
          Inl e \<Rightarrow> Inl e
        | Inr a \<Rightarrow>
            if j \<ge> cost a then
              (case int_sub j (cost a) of
                 Inl e \<Rightarrow> Inl e
               | Inr back \<Rightarrow>
                   (case vector_at (matrix ! (i - 1)) back of
                      Inl e \<Rightarrow> Inl e
                    | Inr x \<Rightarrow>
                        (case vector_at (matrix ! (i - 1)) j of
                           Inl e \<Rightarrow> Inl e
                         | Inr y \<Rightarrow> Inr (dmax (dadd (defense a) x) y))))
            else vector_at (matrix ! (i - 1)) j)"

text \<open>
  \<^verbatim>\<open>for (int j = 0; j <= maxcost; j++)\<close>, pushing onto \<^verbatim>\<open>v1\<close>. The counter is an
  \<^verbatim>\<open>int\<close>: with \<^verbatim>\<open>maxcost\<close> at \<^const>\<open>INT_MAX\<close> the test never fails and the increment
  after the last column overflows.
\<close>

function fill_row ::
  "ArmorVector \<Rightarrow> double list list \<Rightarrow> nat \<Rightarrow> int \<Rightarrow> int \<Rightarrow> double list \<Rightarrow> error + double list" where
  "fill_row armors matrix i maxcost j v1 =
     (if j \<le> maxcost then
        (case cell armors matrix i j of
           Inl e \<Rightarrow> Inl e
         | Inr elem \<Rightarrow>
             (case int_add j 1 of
                Inl e \<Rightarrow> Inl e
              | Inr j' \<Rightarrow> fill_row armors matrix i maxcost j' (v1 @ [elem])))
      else Inr v1)"
  by pat_completeness auto
termination
proof (relation "measure (\<lambda>(armors, matrix, i, maxcost, j, v1). nat (maxcost + 1 - j))",
    goal_cases)
  case 1
  show ?case by simp
next
  case (2 armors matrix i maxcost j v1 elem j')
  from 2(3) have "j' = j + 1"
    by (auto simp: int_add_def split: if_splits)
  with 2(1) show ?case by simp
qed

text \<open>
  \<^verbatim>\<open>for (int i = 0; i <= n; i++)\<close>, pushing each finished row onto \<^verbatim>\<open>matrix\<close>. The
  counter \<open>i\<close> would overflow only for a catalog of \<open>2^31 - 1\<close> items, which the
  conversion \<^verbatim>\<open>int n = armors.size()\<close> already excludes.
\<close>

function fill_matrix ::
  "ArmorVector \<Rightarrow> int \<Rightarrow> nat \<Rightarrow> double list list \<Rightarrow> error + double list list" where
  "fill_matrix armors maxcost i matrix =
     (if i \<le> length armors then
        (case fill_row armors matrix i maxcost 0 [] of
           Inl e \<Rightarrow> Inl e
         | Inr v1 \<Rightarrow> fill_matrix armors maxcost (i + 1) (matrix @ [v1]))
      else Inr matrix)"
  by pat_completeness auto
termination
  by (relation "measure (\<lambda>(armors, maxcost, i, matrix). length armors + 1 - i)") auto

text \<open>
  The reconstruction loop, lines 313 to 322, with the four variables it changes. The
  walk returns all of them, so that the place where it stopped can be observed. The field names carry a prefix; the variables are those of the source.
\<close>

record walk_state =
  w_result :: ArmorVector
  w_matrixValue :: double
  w_maxcost :: int
  w_n :: nat

function walk :: "ArmorVector \<Rightarrow> double list list \<Rightarrow> walk_state \<Rightarrow> error + walk_state" where
  "walk armors matrix s =
     (if dneq (w_matrixValue s) (Finite 0) \<and> w_n s \<noteq> 0 then
        (case vector_at (matrix ! w_n s) (w_maxcost s) of
           Inl e \<Rightarrow> Inl e
         | Inr cur \<Rightarrow>
             (case vector_at (matrix ! (w_n s - 1)) (w_maxcost s) of
                Inl e \<Rightarrow> Inl e
              | Inr prev \<Rightarrow>
                  if dneq cur prev then
                    (case vector_at armors (int (w_n s) - 1) of
                       Inl e \<Rightarrow> Inl e
                     | Inr a \<Rightarrow>
                         (case int_sub (w_maxcost s) (cost a) of
                            Inl e \<Rightarrow> Inl e
                          | Inr c \<Rightarrow>
                              walk armors matrix
                                \<lparr>w_result = w_result s @ [a],
                                 w_matrixValue = dsub (w_matrixValue s) (defense a),
                                 w_maxcost = c,
                                 w_n = w_n s - 1\<rparr>))
                  else walk armors matrix (s\<lparr>w_n := w_n s - 1\<rparr>)))
      else Inr s)"
  by pat_completeness auto
termination
  by (relation "measure (\<lambda>(armors, matrix, s). w_n s)") auto

text \<open>
  The function up to the end of the walk, and the function itself, which returns
  \<^verbatim>\<open>result\<close>.
\<close>

definition dynamic_walk :: "ArmorVector \<Rightarrow> int \<Rightarrow> error + walk_state" where
  "dynamic_walk armors total_cost =
     (case fill_matrix armors total_cost 0 [] of
        Inl e \<Rightarrow> Inl e
      | Inr matrix \<Rightarrow>
          (case vector_at (matrix ! length armors) total_cost of
             Inl e \<Rightarrow> Inl e
           | Inr v \<Rightarrow>
               walk armors matrix
                 \<lparr>w_result = [], w_matrixValue = v, w_maxcost = total_cost, w_n = length armors\<rparr>))"

definition dynamic_max_defense :: "ArmorVector \<Rightarrow> int \<Rightarrow> error + ArmorVector" where
  "dynamic_max_defense armors total_cost =
     (case dynamic_walk armors total_cost of
        Inl e \<Rightarrow> Inl e
      | Inr s \<Rightarrow> Inr (w_result s))"

text \<open>The entry \<^verbatim>\<open>matrix[i].at(c)\<close> of the table that the function builds.\<close>

definition table_entry :: "ArmorVector \<Rightarrow> int \<Rightarrow> nat \<Rightarrow> int \<Rightarrow> error + double" where
  "table_entry armors total_cost i c =
     (case fill_matrix armors total_cost 0 [] of
        Inl e \<Rightarrow> Inl e
      | Inr matrix \<Rightarrow> vector_at (matrix ! i) c)"

section \<open>exhaustive\_max\_defense\<close>

text \<open>
  The inner loop, lines 354 to 358:
  \<^verbatim>\<open>for (int j = 0; j < n; j++) if (((bits >> j) & 1) == 1) candidate->push_back(armors[j]);\<close>
  \<^verbatim>\<open>bits\<close> is an \<^verbatim>\<open>int\<close>, so a shift by 32 or more is undefined.
\<close>

function candidate_loop :: "ArmorVector \<Rightarrow> int \<Rightarrow> nat \<Rightarrow> ArmorVector \<Rightarrow> error + ArmorVector" where
  "candidate_loop armors bits j candidate =
     (if j < length armors then
        (if 32 \<le> j then Inl ShiftTooWide
         else candidate_loop armors bits (j + 1)
                (if (drop_bit j bits) AND 1 = 1 then candidate @ [armors ! j] else candidate))
      else Inr candidate)"
  by pat_completeness auto
termination
  by (relation "measure (\<lambda>(armors, bits, j, candidate). length armors - j)") auto

text \<open>
  The outer loop, lines 351 to 370:
  \<^verbatim>\<open>for (int bits = 0; bits < pow(2,n); bits++)\<close>. The counter is an \<^verbatim>\<open>int\<close>
  compared with the \<^verbatim>\<open>double\<close> \<open>2^n\<close>; incrementing it at \<^verbatim>\<open>INT_MAX\<close> is a
  signed overflow. \<^verbatim>\<open>best\<close> is never null, so the test \<^verbatim>\<open>best == nullptr\<close> of line
  364 is always false and the update is decided by \<^verbatim>\<open>cand_defense > best_defense\<close>.
  The budget is a finite \<^verbatim>\<open>double\<close>, given by its value.
\<close>

function exhaustive_loop ::
  "ArmorVector \<Rightarrow> real \<Rightarrow> int \<Rightarrow> ArmorVector \<Rightarrow> double \<Rightarrow> error + ArmorVector" where
  "exhaustive_loop armors total_cost bits best best_defense =
     (if real_of_int bits < 2 ^ length armors then
        (case candidate_loop armors bits 0 [] of
           Inl e \<Rightarrow> Inl e
         | Inr candidate \<Rightarrow>
             (case sum_armor_vector candidate of
                Inl e \<Rightarrow> Inl e
              | Inr (total_gold_cost, cand_defense) \<Rightarrow>
                  (let better = (real_of_int total_gold_cost \<le> total_cost
                                 \<and> dless best_defense cand_defense)
                   in case int_add bits 1 of
                        Inl e \<Rightarrow> Inl e
                      | Inr bits' \<Rightarrow>
                          exhaustive_loop armors total_cost bits'
                            (if better then candidate else best)
                            (if better then cand_defense else best_defense))))
      else Inr best)"
  by pat_completeness auto
termination
proof (relation "measure (\<lambda>(armors, total_cost, bits, best, best_defense).
                   nat (2 ^ length armors - bits))", goal_cases)
  case 1
  show ?case by simp
next
  case (2 armors total_cost bits best best_defense candidate x total_gold_cost cand_defense
          better bits')
  from 2(1) have "bits < 2 ^ length armors"
    by (metis of_int_less_iff of_int_numeral of_int_power)
  moreover from 2 have "bits' = bits + 1"
    by (auto simp: int_add_def split: if_splits)
  ultimately show ?case by simp
qed

text \<open>\<^verbatim>\<open>const int n = armors.size(); assert(n < 64);\<close> and then the loop from \<open>bits = 0\<close>.\<close>

definition exhaustive_max_defense :: "ArmorVector \<Rightarrow> real \<Rightarrow> error + ArmorVector" where
  "exhaustive_max_defense armors total_cost =
     (if \<not> length armors < 64 then Inl AssertionFailed
      else exhaustive_loop armors total_cost 0 [] (Finite 0))"

text \<open>
  The loops are unfolded one iteration at a time in the proofs, never by the simplifier
  on its own.
\<close>

declare fill_row.simps [simp del] fill_matrix.simps [simp del] walk.simps [simp del]
  candidate_loop.simps [simp del] exhaustive_loop.simps [simp del]

section \<open>Aggregates as mathematical sums\<close>

text \<open>
  The aggregate cost of a selection, and its aggregate benefit as the exact sum of the
  values of its benefits (a benefit that is not finite counts as 0 here; the statements
  below that use the sum assume finite benefits).
\<close>

definition cost_sum :: "ArmorVector \<Rightarrow> int" where
  "cost_sum armors = sum_list (map cost armors)"

fun exact_value :: "double \<Rightarrow> rat" where
  "exact_value (Finite x) = x"
| "exact_value PInf = 0"
| "exact_value NInf = 0"
| "exact_value NaN = 0"

definition benefit :: "ArmorItem \<Rightarrow> rat" where
  "benefit a = exact_value (defense a)"

definition defense_sum :: "ArmorVector \<Rightarrow> rat" where
  "defense_sum armors = sum_list (map benefit armors)"

section \<open>The table and the walk as the specification words them\<close>

text \<open>
  The table of section 4.2 of the specification, in exact arithmetic: \<open>T[0][c] = 0\<close>,
  \<open>T[i][0] = 0\<close>, and for \<open>i \<ge> 1\<close>, \<open>c \<ge> 1\<close> the entry is carried forward when item
  \<open>i-1\<close> costs more than \<open>c\<close> and is otherwise the better of leaving the item out or
  taking it.
\<close>

fun spec_T :: "ArmorVector \<Rightarrow> nat \<Rightarrow> int \<Rightarrow> rat" where
  "spec_T armors 0 c = 0"
| "spec_T armors (Suc i) c =
     (if c = 0 then 0
      else if cost (armors ! i) > c then spec_T armors i c
      else max (spec_T armors i c)
               (benefit (armors ! i) + spec_T armors i (c - cost (armors ! i))))"

definition spec_table :: "ArmorVector \<Rightarrow> int \<Rightarrow> nat \<Rightarrow> double list list" where
  "spec_table armors maxcost k =
     map (\<lambda>i. map (\<lambda>c. Finite (spec_T armors i c)) [0..maxcost]) [0..<k]"

text \<open>
  The reconstruction of section 4.2: from \<open>(i, c)\<close> down to \<open>i = 0\<close>, item \<open>i-1\<close>
  is taken exactly when \<open>T[i][c] \<noteq> T[i-1][c]\<close>. Items are listed in the order in which
  they are found, the last item of the catalog first.
\<close>

fun spec_walk :: "ArmorVector \<Rightarrow> nat \<Rightarrow> int \<Rightarrow> ArmorVector" where
  "spec_walk armors 0 c = []"
| "spec_walk armors (Suc i) c =
     (if spec_T armors (Suc i) c \<noteq> spec_T armors i c
      then armors ! i # spec_walk armors i (c - cost (armors ! i))
      else spec_walk armors i c)"

text \<open>
  \<open>v\<close> is the maximum benefit of the selections of \<open>items\<close> that cost at most \<open>c\<close>:
  some selection reaches it and none exceeds it. A selection is a subsequence of the
  catalog, so two equal items at different places are two items.
\<close>

definition max_benefit :: "ArmorVector \<Rightarrow> int \<Rightarrow> rat \<Rightarrow> bool" where
  "max_benefit items c v \<longleftrightarrow>
     (\<exists>S\<in>set (subseqs items). cost_sum S \<le> c \<and> defense_sum S = v) \<and>
     (\<forall>S\<in>set (subseqs items). cost_sum S \<le> c \<longrightarrow> defense_sum S \<le> v)"

text \<open>
  The selection that the mask \<open>bits\<close> stands for in section 4.3 of the specification:
  item \<open>j\<close> is in it whenever bit \<open>j\<close> of the mask is set.
\<close>

definition mask_subset :: "ArmorVector \<Rightarrow> int \<Rightarrow> ArmorVector" where
  "mask_subset armors bits = map (nth armors) (filter (bit bits) [0..<length armors])"

text \<open>
  What the loop of \<^verbatim>\<open>exhaustive_max_defense\<close> has established when it returns \<open>r\<close>,
  having started at the mask \<open>bits\<close> with \<open>best\<close> and a best benefit of \<open>bd\<close>: \<open>r\<close> is
  \<open>best\<close> or the selection of a later mask within the budget \<open>B\<close> on which
  \<^verbatim>\<open>sum_armor_vector\<close> gave the exact sums, and no selection of a mask from \<open>bits\<close> to
  \<open>2^N - 1\<close> within the budget has a larger benefit than \<open>r\<close>.
\<close>

definition examined :: "ArmorVector \<Rightarrow> real \<Rightarrow> int \<Rightarrow> ArmorVector \<Rightarrow> rat \<Rightarrow> ArmorVector \<Rightarrow> bool" where
  "examined armors B bits best bd r \<longleftrightarrow>
     (\<exists>rd. ((r = best \<and> rd = bd) \<or>
            (\<exists>m. bits \<le> m \<and> m < 2 ^ length armors \<and> r = mask_subset armors m \<and>
                 real_of_int (cost_sum r) \<le> B \<and> rd = defense_sum r \<and>
                 sum_armor_vector r = Inr (cost_sum r, Finite rd))) \<and>
           bd \<le> rd \<and>
           (\<forall>m. bits \<le> m \<and> m < 2 ^ length armors \<and>
                real_of_int (cost_sum (mask_subset armors m)) \<le> B
                \<longrightarrow> defense_sum (mask_subset armors m) \<le> rd))"

text \<open>The invariant of \<^verbatim>\<open>ArmorItem\<close> that the claims assume: every cost is positive.\<close>

definition positive_costs :: "ArmorVector \<Rightarrow> bool" where
  "positive_costs armors \<longleftrightarrow> (\<forall>a\<in>set armors. 0 < cost a)"

text \<open>
  The catalogs on which the doubles of the solvers make no rounding error: every
  benefit is finite, and the exact benefit total of every selection is the value of a
  double. Benefits that are integers from 0 to \<open>2^53\<close> with a total of at most \<open>2^53\<close>
  are of this kind.
\<close>

definition exact_benefits :: "ArmorVector \<Rightarrow> bool" where
  "exact_benefits armors \<longleftrightarrow>
     (\<forall>a\<in>set armors. defense a = Finite (benefit a)) \<and>
     (\<forall>S\<in>set (subseqs armors). representable (defense_sum S))"

section \<open>Example catalogs\<close>

text \<open>Scenario 1 of section 8 of the specification (budget 5, optimum 7 with A and B).\<close>

definition scenario1 :: ArmorVector where
  "scenario1 =
     [\<lparr>description = ''A'', cost = 2, defense = Finite 3\<rparr>,
      \<lparr>description = ''B'', cost = 3, defense = Finite 4\<rparr>,
      \<lparr>description = ''C'', cost = 4, defense = Finite 5\<rparr>,
      \<lparr>description = ''D'', cost = 5, defense = Finite 6\<rparr>]"

text \<open>An item of cost 1 and benefit 1, for catalogs of a given size.\<close>

definition helmet :: ArmorItem where
  "helmet = \<lparr>description = ''helmet'', cost = 1, defense = Finite 1\<rparr>"

text \<open>An item of cost \<open>2^30\<close>: two of them cost more than \<^const>\<open>INT_MAX\<close>.\<close>

definition heavy :: ArmorItem where
  "heavy = \<lparr>description = ''plate'', cost = 1073741824, defense = Finite 1\<rparr>"

text \<open>
  Three items of cost 1 whose benefits are the doubles written \<^verbatim>\<open>0.1\<close>, \<^verbatim>\<open>0.2\<close> and
  \<^verbatim>\<open>0.3\<close>.
\<close>

definition tenths :: ArmorVector where
  "tenths =
     [\<lparr>description = ''A'', cost = 1, defense = Finite (3602879701896397 / 36028797018963968)\<rparr>,
      \<lparr>description = ''B'', cost = 1, defense = Finite (3602879701896397 / 18014398509481984)\<rparr>,
      \<lparr>description = ''C'', cost = 1, defense = Finite (5404319552844595 / 18014398509481984)\<rparr>]"

text \<open>An item of benefit 1 before an item of benefit \<open>2^53\<close>: in doubles \<open>2^53 + 1\<close> is \<open>2^53\<close>.\<close>

definition absorbed :: ArmorVector where
  "absorbed =
     [\<lparr>description = ''A'', cost = 1, defense = Finite 1\<rparr>,
      \<lparr>description = ''B'', cost = 1, defense = Finite 9007199254740992\<rparr>]"

text \<open>
  Four items with the costs 4, 3, 3, 1 and the benefits \<^verbatim>\<open>1.1\<close>, \<^verbatim>\<open>3.8\<close>, \<^verbatim>\<open>3.2\<close>,
  \<^verbatim>\<open>1.1\<close>, and four items with the costs 2, 2, 3, 1 and the benefits \<^verbatim>\<open>0.7\<close>, \<^verbatim>\<open>2.5\<close>,
  \<^verbatim>\<open>3.2\<close>, \<^verbatim>\<open>3.7\<close>.
\<close>

definition decimals_a :: ArmorVector where
  "decimals_a =
     [\<lparr>description = ''A'', cost = 4, defense = Finite (2476979795053773 / 2251799813685248)\<rparr>,
      \<lparr>description = ''B'', cost = 3, defense = Finite (4278419646001971 / 1125899906842624)\<rparr>,
      \<lparr>description = ''C'', cost = 3, defense = Finite (3602879701896397 / 1125899906842624)\<rparr>,
      \<lparr>description = ''D'', cost = 1, defense = Finite (2476979795053773 / 2251799813685248)\<rparr>]"

definition decimals_b :: ArmorVector where
  "decimals_b =
     [\<lparr>description = ''A'', cost = 2, defense = Finite (3152519739159347 / 4503599627370496)\<rparr>,
      \<lparr>description = ''B'', cost = 2, defense = Finite (5 / 2)\<rparr>,
      \<lparr>description = ''C'', cost = 3, defense = Finite (3602879701896397 / 1125899906842624)\<rparr>,
      \<lparr>description = ''D'', cost = 1, defense = Finite (4165829655317709 / 1125899906842624)\<rparr>]"

section \<open>Sums, selections and the table of the specification\<close>

lemma cost_sum_simps [simp]:
  "cost_sum [] = 0" "cost_sum (a # S) = cost a + cost_sum S"
  "cost_sum (S @ S') = cost_sum S + cost_sum S'" "cost_sum (rev S) = cost_sum S"
  by (simp_all add: cost_sum_def rev_map [symmetric])

lemma defense_sum_simps [simp]:
  "defense_sum [] = 0" "defense_sum (a # S) = benefit a + defense_sum S"
  "defense_sum (S @ S') = defense_sum S + defense_sum S'" "defense_sum (rev S) = defense_sum S"
  by (simp_all add: defense_sum_def rev_map [symmetric])

lemma cost_sum_nonneg: "\<forall>a\<in>set S. 0 < cost a \<Longrightarrow> 0 \<le> cost_sum S"
  by (induction S) auto

lemma cost_sum_pos: "\<forall>a\<in>set S. 0 < cost a \<Longrightarrow> S \<noteq> [] \<Longrightarrow> 0 < cost_sum S"
  using cost_sum_nonneg by (cases S) fastforce+

lemma subseq_singleton_right: "subseq S [a] \<longleftrightarrow> S = [] \<or> S = [a]"
  by (cases S) auto

lemma subseq_snoc:
  "subseq S (xs @ [a]) \<longleftrightarrow> subseq S xs \<or> (\<exists>S'. S = S' @ [a] \<and> subseq S' xs)"
proof
  assume "subseq S (xs @ [a])"
  then obtain S1 S2 where S: "S = S1 @ S2" "subseq S1 xs" "subseq S2 [a]"
    by (rule subseq_appendE)
  from S(3) have "S2 = [] \<or> S2 = [a]"
    by (simp only: subseq_singleton_right)
  with S(1,2) show "subseq S xs \<or> (\<exists>S'. S = S' @ [a] \<and> subseq S' xs)"
    by auto
next
  assume "subseq S xs \<or> (\<exists>S'. S = S' @ [a] \<and> subseq S' xs)"
  then show "subseq S (xs @ [a])"
  proof
    assume "subseq S xs"
    then show ?thesis by (rule subseq_rev_drop_many)
  next
    assume "\<exists>S'. S = S' @ [a] \<and> subseq S' xs"
    then obtain S' where "S = S' @ [a]" "subseq S' xs" by blast
    then show ?thesis by simp
  qed
qed

lemma subseq_cost_le:
  "subseq S xs \<Longrightarrow> \<forall>a\<in>set xs. 0 < cost a \<Longrightarrow> cost_sum S \<le> cost_sum xs"
proof (induction rule: list_emb.induct)
  case (list_emb_Nil ys)
  then show ?case by (simp add: cost_sum_nonneg)
next
  case (list_emb_Cons xs ys y)
  then show ?case by simp
next
  case (list_emb_Cons2 x y xs ys)
  then show ?case by simp
qed

lemma subseq_positive:
  "subseq S xs \<Longrightarrow> \<forall>a\<in>set xs. 0 < cost a \<Longrightarrow> \<forall>a\<in>set S. 0 < cost a"
proof
  fix a assume *: "subseq S xs" "\<forall>a\<in>set xs. 0 < cost a" "a \<in> set S"
  from *(1,3) have "a \<in> set xs" by (rule list_emb_set) simp
  with *(2) show "0 < cost a" by simp
qed

lemma spec_T_zero_budget: "spec_T armors i 0 = 0"
  by (cases i) simp_all

lemma spec_T_mono_prefix: "spec_T armors i c \<le> spec_T armors (Suc i) c"
  by (simp add: spec_T_zero_budget)

lemma spec_T_nonneg: "0 \<le> spec_T armors i c"
proof (induction i)
  case 0
  show ?case by simp
next
  case (Suc i)
  then show ?case using spec_T_mono_prefix [of armors i c] by linarith
qed

lemma spec_T_include:
  assumes "spec_T armors (Suc i) c \<noteq> spec_T armors i c"
  shows "c \<noteq> 0" and "cost (armors ! i) \<le> c"
    and "spec_T armors (Suc i) c = benefit (armors ! i) + spec_T armors i (c - cost (armors ! i))"
proof -
  show 1: "c \<noteq> 0"
    using assms by (auto simp: spec_T_zero_budget)
  show 2: "cost (armors ! i) \<le> c"
    using assms 1 by (auto split: if_splits)
  show "spec_T armors (Suc i) c = benefit (armors ! i) + spec_T armors i (c - cost (armors ! i))"
    using assms 1 2 by (auto simp: max_def split: if_splits)
qed

lemma spec_walk_zero: "spec_T armors i c = 0 \<Longrightarrow> spec_walk armors i c = []"
proof (induction i)
  case 0
  show ?case by simp
next
  case (Suc i)
  have "spec_T armors i c = 0"
    using Suc.prems spec_T_mono_prefix [of armors i c] spec_T_nonneg [of armors i c] by linarith
  then show ?case using Suc by simp
qed

lemma spec_walk_defense: "defense_sum (spec_walk armors i c) = spec_T armors i c"
proof (induction i arbitrary: c)
  case 0
  show ?case by simp
next
  case (Suc i)
  show ?case
  proof (cases "spec_T armors (Suc i) c \<noteq> spec_T armors i c")
    case True
    from spec_T_include(3) [OF True] Suc [of "c - cost (armors ! i)"] True
    show ?thesis by (simp del: spec_T.simps)
  next
    case False
    with Suc [of c] show ?thesis by (simp del: spec_T.simps)
  qed
qed

lemma spec_walk_cost: "0 \<le> c \<Longrightarrow> cost_sum (spec_walk armors i c) \<le> c"
proof (induction i arbitrary: c)
  case 0
  then show ?case by simp
next
  case (Suc i)
  show ?case
  proof (cases "spec_T armors (Suc i) c \<noteq> spec_T armors i c")
    case True
    from spec_T_include(2) [OF True] have "0 \<le> c - cost (armors ! i)" by simp
    from Suc.IH [OF this] True show ?thesis by (simp del: spec_T.simps)
  next
    case False
    with Suc.IH [OF Suc.prems] show ?thesis by (simp del: spec_T.simps)
  qed
qed

lemma spec_walk_subseq:
  "i \<le> length armors \<Longrightarrow> subseq (rev (spec_walk armors i c)) (take i armors)"
proof (induction i arbitrary: c)
  case 0
  show ?case by simp
next
  case (Suc i)
  then have t: "take (Suc i) armors = take i armors @ [armors ! i]"
    by (simp add: take_Suc_conv_app_nth)
  from Suc have IH: "subseq (rev (spec_walk armors i c')) (take i armors)" for c'
    by simp
  show ?case
  proof (cases "spec_T armors (Suc i) c \<noteq> spec_T armors i c")
    case True
    with IH [of "c - cost (armors ! i)"] show ?thesis
      unfolding t by (simp del: spec_T.simps)
  next
    case False
    with IH [of c] show ?thesis
      unfolding t by (simp del: spec_T.simps add: subseq_rev_drop_many)
  qed
qed

lemma spec_T_upper:
  "i \<le> length armors \<Longrightarrow> \<forall>a\<in>set armors. 0 < cost a \<Longrightarrow> 0 \<le> c \<Longrightarrow>
   subseq S (take i armors) \<Longrightarrow> cost_sum S \<le> c \<Longrightarrow> defense_sum S \<le> spec_T armors i c"
proof (induction i arbitrary: c S)
  case 0
  then have "S = []" by (auto dest: list_emb_Nil2)
  then show ?case by simp
next
  case (Suc i)
  let ?a = "armors ! i"
  have t: "take (Suc i) armors = take i armors @ [?a]"
    using Suc.prems(1) by (simp add: take_Suc_conv_app_nth)
  have posS: "\<forall>a\<in>set S'. 0 < cost a" if "subseq S' (take i armors)" for S'
  proof
    fix a assume "a \<in> set S'"
    with that have "a \<in> set (take i armors)"
      by (auto dest: list_emb_set)
    then show "0 < cost a"
      using Suc.prems(2) by (auto dest: in_set_takeD)
  qed
  have pos: "0 < cost ?a"
    using Suc.prems(1,2) by simp
  from Suc.prems(4) [unfolded t subseq_snoc]
  consider (skip) "subseq S (take i armors)"
    | (take) S' where "S = S' @ [?a]" "subseq S' (take i armors)"
    by blast
  then show ?case
  proof cases
    case skip
    have "defense_sum S \<le> spec_T armors i c"
      using Suc.IH [OF _ Suc.prems(2,3) skip Suc.prems(5)] Suc.prems(1) by simp
    then show ?thesis
      using spec_T_mono_prefix [of armors i c] by linarith
  next
    case take
    have S'0: "0 \<le> cost_sum S'"
      using posS [OF take(2)] by (rule cost_sum_nonneg)
    have le: "cost ?a \<le> c" "cost_sum S' \<le> c - cost ?a"
      using Suc.prems(5) take(1) S'0 by simp_all
    have "c \<noteq> 0"
      using le(1) pos by simp
    have "defense_sum S' \<le> spec_T armors i (c - cost ?a)"
      using Suc.IH [OF _ Suc.prems(2) _ take(2) le(2)] Suc.prems(1) le(1) by simp
    then show ?thesis
      using le(1) \<open>c \<noteq> 0\<close> take(1) by simp
  qed
qed

lemma spec_T_max_benefit:
  assumes "i \<le> length armors" "\<forall>a\<in>set armors. 0 < cost a" "0 \<le> c"
  shows "max_benefit (take i armors) c (spec_T armors i c)"
  unfolding max_benefit_def
proof (intro conjI ballI impI)
  show "\<exists>S\<in>set (subseqs (take i armors)). cost_sum S \<le> c \<and> defense_sum S = spec_T armors i c"
    using spec_walk_subseq [OF assms(1), of c] spec_walk_cost [OF assms(3), of armors i]
      spec_walk_defense [of armors i c]
    by (intro bexI [of _ "rev (spec_walk armors i c)"]) simp_all
next
  fix S assume "S \<in> set (subseqs (take i armors))" "cost_sum S \<le> c"
  then show "defense_sum S \<le> spec_T armors i c"
    using spec_T_upper [OF assms] by simp
qed

lemma spec_T_mono_budget:
  assumes "\<forall>a\<in>set armors. 0 < cost a" "0 \<le> b1" "b1 \<le> b2"
  shows "spec_T armors (length armors) b1 \<le> spec_T armors (length armors) b2"
proof -
  let ?S = "rev (spec_walk armors (length armors) b1)"
  have "subseq ?S (take (length armors) armors)"
    by (rule spec_walk_subseq) simp
  moreover have "cost_sum ?S \<le> b2"
    using spec_walk_cost [OF assms(2), of armors "length armors"] assms(3) by simp
  ultimately have "defense_sum ?S \<le> spec_T armors (length armors) b2"
    using assms by (intro spec_T_upper) simp_all
  then show ?thesis by (simp add: spec_walk_defense)
qed

section \<open>The rounding of doubles\<close>

lemma bitlen_powi_bounds:
  assumes "0 < (p::int)"
  shows "2 powi (bitlen p - 1) \<le> (of_int p :: rat)" and "(of_int p :: rat) < 2 powi (bitlen p)"
proof -
  have b: "0 < bitlen p"
    using assms bitlen_nonneg [of p] bitlen_eq_zero_iff [of p] by linarith
  from bitlen_bounds [OF assms] have 1: "2 ^ nat (bitlen p - 1) \<le> p" and 2: "p < 2 ^ nat (bitlen p)"
    by simp_all
  have "(2::rat) powi (bitlen p - 1) = 2 ^ nat (bitlen p - 1)"
    using b by (simp add: power_int_def)
  also have "\<dots> = of_int (2 ^ nat (bitlen p - 1))"
    by simp
  also have "\<dots> \<le> of_int p"
    using 1 by (simp only: of_int_le_iff)
  finally show "2 powi (bitlen p - 1) \<le> (of_int p :: rat)" .
  have "(of_int p :: rat) < of_int (2 ^ nat (bitlen p))"
    using 2 by (simp only: of_int_less_iff)
  also have "\<dots> = 2 ^ nat (bitlen p)"
    by simp
  also have "\<dots> = 2 powi (bitlen p)"
    using b by (simp add: power_int_def)
  finally show "(of_int p :: rat) < 2 powi (bitlen p)" .
qed

lemma ilog2_bounds:
  assumes "0 < a"
  shows "2 powi (ilog2 a) \<le> a" and "a < 2 powi (ilog2 a + 1)"
proof -
  obtain p q where pq: "quotient_of a = (p, q)"
    by (cases "quotient_of a")
  then have q: "0 < q" and a: "a = of_int p / of_int q"
    using quotient_of_denom_pos [of a p q] quotient_of_div [of a p q] by simp_all
  have p: "0 < p"
    using assms q a by (simp add: zero_less_divide_iff)
  define kp kq where "kp = bitlen p" and "kq = bitlen q"
  have kp: "2 powi (kp - 1) \<le> (of_int p :: rat)" "(of_int p :: rat) < 2 powi kp"
    unfolding kp_def using bitlen_powi_bounds [OF p] by simp_all
  have kq: "2 powi (kq - 1) \<le> (of_int q :: rat)" "(of_int q :: rat) < 2 powi kq"
    unfolding kq_def using bitlen_powi_bounds [OF q] by simp_all
  have qr: "0 < (of_int q :: rat)" and pr: "0 < (of_int p :: rat)"
    using p q by simp_all
  have up: "a < 2 powi (kp - kq + 1)"
  proof -
    have "a * (2::rat) powi (kq - 1) \<le> a * of_int q"
      using kq(1) assms by simp
    also have "\<dots> = of_int p"
      using a qr by simp
    also have "\<dots> < 2 powi kp"
      by (rule kp(2))
    also have "\<dots> = 2 powi (kp - kq + 1) * 2 powi (kq - 1)"
      by (simp flip: power_int_add)
    finally show ?thesis
      by simp
  qed
  have lo: "2 powi (kp - kq - 1) < a"
  proof -
    have "(2::rat) powi (kp - kq - 1) * of_int q < 2 powi (kp - kq - 1) * 2 powi kq"
      using kq(2) by simp
    also have "\<dots> = 2 powi (kp - 1)"
      by (simp flip: power_int_add)
    also have "\<dots> \<le> of_int p"
      by (rule kp(1))
    also have "\<dots> = a * of_int q"
      using a qr by simp
    finally show ?thesis
      using qr by simp
  qed
  have il: "ilog2 a = (if 2 powi (kp - kq) \<le> a then kp - kq else kp - kq - 1)"
    by (simp add: ilog2_def pq kp_def kq_def Let_def)
  show "2 powi (ilog2 a) \<le> a"
    using lo by (simp add: il)
  show "a < 2 powi (ilog2 a + 1)"
    using up by (auto simp: il not_le)
qed

lemma ilog2_unique:
  assumes "2 powi e \<le> a" "a < 2 powi (e + 1)"
  shows "ilog2 a = e"
proof -
  have "0 < (2::rat) powi e"
    by simp
  with assms(1) have a: "0 < a"
    by linarith
  note b = ilog2_bounds [OF a]
  have "ilog2 a < e + 1"
  proof (rule ccontr)
    assume "\<not> ilog2 a < e + 1"
    then have "(2::rat) powi (e + 1) \<le> 2 powi (ilog2 a)"
      by (intro power_int_increasing) simp_all
    with b(1) assms(2) show False by linarith
  qed
  moreover have "e < ilog2 a + 1"
  proof (rule ccontr)
    assume "\<not> e < ilog2 a + 1"
    then have "(2::rat) powi (ilog2 a + 1) \<le> 2 powi e"
      by (intro power_int_increasing) simp_all
    with b(2) assms(1) show False by linarith
  qed
  ultimately show ?thesis by simp
qed

lemma round_half_even_of_int: "round_half_even (of_int k) = k"
  by (simp add: round_half_even_def)

lemma representable_of_int:
  assumes "\<bar>n\<bar> \<le> 2 ^ 53"
  shows "representable (of_int n)"
proof (cases "n = 0")
  case True
  then show ?thesis by (simp add: representable_def round_double_def)
next
  case False
  define x :: rat where "x = of_int n"
  define e where "e = ilog2 \<bar>x\<bar>"
  have ax: "\<bar>x\<bar> = of_int \<bar>n\<bar>"
    by (simp add: x_def)
  have x0: "x \<noteq> 0" "0 < \<bar>x\<bar>"
    using False by (simp_all add: x_def)
  have "of_int 1 \<le> (of_int \<bar>n\<bar> :: rat)"
    using False by (subst of_int_le_iff) simp
  then have x1: "1 \<le> \<bar>x\<bar>"
    by (simp add: ax)
  have "(of_int \<bar>n\<bar> :: rat) \<le> of_int (2 ^ 53)"
    using assms by (subst of_int_le_iff) simp
  then have x2: "\<bar>x\<bar> \<le> 2 ^ 53"
    by (simp add: ax)
  have b: "2 powi e \<le> \<bar>x\<bar>" "\<bar>x\<bar> < 2 powi (e + 1)"
    unfolding e_def using ilog2_bounds [OF x0(2)] by simp_all
  have e0: "0 \<le> e"
  proof (rule ccontr)
    assume "\<not> 0 \<le> e"
    then have "(2::rat) powi (e + 1) \<le> 2 powi 0"
      by (intro power_int_increasing) simp_all
    with b(2) x1 show False by simp
  qed
  have e53: "e \<le> 53"
  proof (rule ccontr)
    assume "\<not> e \<le> 53"
    then have "(2::rat) powi 54 \<le> 2 powi e"
      by (intro power_int_increasing) simp_all
    with b(1) x2 show False by simp
  qed
  have u: "max (e - 52) (- 1074) = e - 52"
    using e0 by simp
  have "\<exists>k. x / 2 powi (e - 52) = of_int k"
  proof (cases "e \<le> 52")
    case True
    then have "(2::rat) powi (52 - e) = 2 ^ nat (52 - e)"
      by (simp add: power_int_def)
    moreover have "(2::rat) powi (e - 52) = inverse (2 powi (52 - e))"
      using power_int_minus [of "2::rat" "52 - e"] by simp
    ultimately have "(2::rat) powi (e - 52) = inverse (2 ^ nat (52 - e))"
      by simp
    then have "x / 2 powi (e - 52) = of_int (n * 2 ^ nat (52 - e))"
      by (simp add: x_def divide_inverse)
    then show ?thesis by blast
  next
    case False
    with e53 have e: "e = 53" by simp
    with b(1) x2 have "\<bar>x\<bar> = 2 ^ 53"
      by simp
    then have "(of_int \<bar>n\<bar> :: rat) = of_int (2 ^ 53)"
      by (simp add: ax)
    then have "\<bar>n\<bar> = 2 ^ 53"
      by (subst (asm) of_int_eq_iff)
    then have "n = 2 ^ 53 \<or> n = - (2 ^ 53)"
      by linarith
    then have "n = 2 * (n div 2)"
      by auto
    then have "x = 2 * of_int (n div 2)"
      unfolding x_def by (metis of_int_mult of_int_numeral)
    then have "x / 2 powi (e - 52) = of_int (n div 2)"
      by (simp add: e)
    then show ?thesis by blast
  qed
  then obtain k where k: "x / 2 powi (e - 52) = of_int k"
    by blast
  then have y: "of_int k * 2 powi (e - 52) = x"
    by (simp add: field_simps)
  have "round_to_unit x (e - 52) = finite_or_inf x"
    by (simp add: round_to_unit_def k round_half_even_of_int y)
  also have "\<dots> = Finite x"
    using x0 e53 by (simp add: finite_or_inf_def flip: e_def)
  finally have "round_double x = Finite x"
    using x0 by (simp add: round_double_def u flip: e_def)
  then show ?thesis
    by (simp add: representable_def x_def)
qed

text \<open>
  Some values of the rounding: the double written \<^verbatim>\<open>0.1\<close>; \<open>2^53 + 1\<close>, a tie that goes
  to the even \<open>2^53\<close>, and \<open>2^53 + 3\<close>, a tie that goes to \<open>2^53 + 4\<close>.
\<close>

lemma round_double_examples:
  "round_double (1 / 10) = Finite (3602879701896397 / 36028797018963968)"
  "dadd (Finite 9007199254740992) (Finite 1) = Finite 9007199254740992"
  "dadd (Finite 9007199254740992) (Finite 3) = Finite 9007199254740996"
  by code_simp+

text \<open>
  At the ends of the range: the smallest double \<open>2^(-1074)\<close>; half of it, a tie that
  goes to zero, and three halves of it, a tie that goes to \<open>2^(-1073)\<close>; the largest
  double \<open>(2^53 - 1) * 2^971\<close>, and twice it, which is infinite.
\<close>

lemma round_double_binade:
  assumes "2 powi e \<le> \<bar>x\<bar>" "\<bar>x\<bar> < 2 powi (e + 1)"
  shows "round_double x
           = finite_or_inf (of_int (round_half_even (x / 2 powi (max (e - 52) (- 1074))))
                              * 2 powi (max (e - 52) (- 1074)))"
proof -
  have "0 < (2::rat) powi e" by simp
  with assms(1) have "0 < \<bar>x\<bar>" by linarith
  then have "x \<noteq> 0" by simp
  moreover have "ilog2 \<bar>x\<bar> = e"
    using assms by (rule ilog2_unique)
  ultimately show ?thesis
    by (simp add: round_double_def round_to_unit_def)
qed

lemma finite_or_inf_binade:
  assumes "2 powi e \<le> \<bar>y\<bar>" "\<bar>y\<bar> < 2 powi (e + 1)"
  shows "finite_or_inf y = (if e < 1024 then Finite y else if 0 < y then PInf else NInf)"
proof -
  have "0 < (2::rat) powi e" by simp
  with assms(1) have "0 < \<bar>y\<bar>" by linarith
  then have "y \<noteq> 0" by simp
  moreover have "ilog2 \<bar>y\<bar> = e"
    using assms by (rule ilog2_unique)
  ultimately show ?thesis
    by (simp add: finite_or_inf_def)
qed

lemma smallest_double: "representable (2 powi (- 1074))"
proof -
  have "round_double (2 powi (- 1074)) = finite_or_inf (2 powi (- 1074))"
    by (subst round_double_binade [of "- 1074"]) (simp_all add: round_half_even_of_int [of 1, simplified])
  also have "\<dots> = Finite (2 powi (- 1074))"
    by (subst finite_or_inf_binade [of "- 1074"]) simp_all
  finally show ?thesis by (simp add: representable_def)
qed

lemma half_smallest_double: "round_double (2 powi (- 1075)) = Finite 0"
proof -
  have "(2::rat) powi (- 1075) / 2 powi (- 1074) = 2 powi (- 1075 - (- 1074))"
    by (subst power_int_diff) simp_all
  then have q: "(2::rat) powi (- 1075) / 2 powi (- 1074) = 1 / 2"
    by simp
  have "round_half_even (1 / 2) = 0"
    by code_simp
  then show ?thesis
    by (subst round_double_binade [of "- 1075"]) (simp_all add: q finite_or_inf_def)
qed

lemma smallest_tie_to_even: "round_double (3 * 2 powi (- 1075)) = Finite (2 powi (- 1073))"
proof -
  have h: "(2::rat) powi (- 1074) = 2 * 2 powi (- 1075)" "(2::rat) powi (- 1073) = 4 * 2 powi (- 1075)"
    using power_int_add [of "2::rat" 1 "- 1075"] power_int_add [of "2::rat" 2 "- 1075"] by simp_all
  have q: "3 * (2::rat) powi (- 1075) / 2 powi (- 1074) = 3 / 2"
    by (simp add: h)
  have k: "round_half_even (3 / 2) = 2"
    by code_simp
  have "round_double (3 * 2 powi (- 1075)) = finite_or_inf (2 * 2 powi (- 1074))"
    by (subst round_double_binade [of "- 1074"]) (simp_all add: q k h)
  also have "2 * (2::rat) powi (- 1074) = 2 powi (- 1073)"
    by (simp add: h)
  also have "finite_or_inf (2 powi (- 1073)) = Finite (2 powi (- 1073))"
    by (subst finite_or_inf_binade [of "- 1073"]) simp_all
  finally show ?thesis .
qed

lemma largest_double:
  "representable ((2 ^ 53 - 1) * 2 powi 971)"
  "dadd (Finite ((2 ^ 53 - 1) * 2 powi 971)) (Finite ((2 ^ 53 - 1) * 2 powi 971)) = PInf"
proof -
  let ?M = "(2 ^ 53 - 1) * (2::rat) powi 971"
  have h: "(2::rat) powi 1023 = 2 ^ 52 * 2 powi 971" "(2::rat) powi 1024 = 2 ^ 53 * 2 powi 971"
    "(2::rat) powi 1025 = 2 ^ 54 * 2 powi 971" "(2::rat) powi 972 = 2 * 2 powi 971"
    using power_int_add [of "2::rat" 52 971] power_int_add [of "2::rat" 53 971]
      power_int_add [of "2::rat" 54 971] power_int_add [of "2::rat" 1 971] by simp_all
  have p: "0 < (2::rat) powi 971" by simp
  have M: "0 < ?M" "\<bar>?M\<bar> = ?M"
    using p by simp_all
  have b: "2 powi 1023 \<le> \<bar>?M\<bar>" "\<bar>?M\<bar> < 2 powi (1023 + 1)"
    unfolding M(2) using p by (simp_all only: h) simp_all
  have q: "?M / 2 powi 971 = 2 ^ 53 - 1"
    by simp
  have k: "round_half_even 9007199254740991 = 9007199254740991"
    using round_half_even_of_int [of 9007199254740991] by simp
  have "round_double ?M = finite_or_inf ?M"
    by (subst round_double_binade [OF b]) (simp add: q k)
  also have "\<dots> = Finite ?M"
    by (subst finite_or_inf_binade [OF b]) simp
  finally show "representable ?M"
    by (simp add: representable_def)
  have b2: "2 powi 1024 \<le> \<bar>?M + ?M\<bar>" "\<bar>?M + ?M\<bar> < 2 powi (1024 + 1)"
    using p by (simp_all only: h) simp_all
  have q2: "(?M + ?M) / 2 powi 972 = 2 ^ 53 - 1"
    by (simp add: h)
  have "round_double (?M + ?M) = finite_or_inf (?M + ?M)"
    by (subst round_double_binade [OF b2]) (simp add: q2 k h)
  also have "\<dots> = PInf"
    using M(1) by (subst finite_or_inf_binade [OF b2]) simp
  finally show "dadd (Finite ?M) (Finite ?M) = PInf"
    by simp
qed


lemma defense_sum_of_int:
  "\<forall>a\<in>set S. \<exists>k. 0 \<le> k \<and> defense a = Finite (of_int k) \<Longrightarrow>
   \<exists>m. 0 \<le> m \<and> defense_sum S = of_int m"
proof (induction S)
  case Nil
  show ?case by (intro exI [of _ 0]) simp
next
  case (Cons a S)
  then obtain m where m: "0 \<le> m" "defense_sum S = of_int m"
    by auto
  from Cons(2) obtain k where k: "0 \<le> k" "defense a = Finite (of_int k)"
    by auto
  have "0 \<le> k + m \<and> defense_sum (a # S) = of_int (k + m)"
    using m k by (simp add: benefit_def)
  then show ?case by blast
qed

lemma defense_sum_nonneg: "\<forall>a\<in>set S. 0 \<le> benefit a \<Longrightarrow> 0 \<le> defense_sum S"
  by (induction S) auto

lemma subseq_defense_le:
  "subseq S xs \<Longrightarrow> \<forall>a\<in>set xs. 0 \<le> benefit a \<Longrightarrow> defense_sum S \<le> defense_sum xs"
proof (induction rule: list_emb.induct)
  case (list_emb_Nil ys)
  then show ?case by (simp add: defense_sum_nonneg)
next
  case (list_emb_Cons xs ys y)
  then show ?case by simp
next
  case (list_emb_Cons2 x y xs ys)
  then show ?case by simp
qed

text \<open>
  Benefits that are integers from 0 on and add up to at most \<open>2^53\<close> over the catalog
  make no rounding error.
\<close>

lemma exact_benefits_integers:
  assumes "\<forall>a\<in>set armors. \<exists>k. 0 \<le> k \<and> defense a = Finite (of_int k)"
    and "defense_sum armors \<le> 2 ^ 53"
  shows "exact_benefits armors"
  unfolding exact_benefits_def
proof (intro conjI ballI)
  fix a assume "a \<in> set armors"
  with assms(1) obtain k where "defense a = Finite (of_int k)"
    by blast
  then show "defense a = Finite (benefit a)"
    by (simp add: benefit_def)
next
  fix S assume "S \<in> set (subseqs armors)"
  then have sub: "subseq S armors"
    by simp
  have nn: "\<forall>a\<in>set armors. 0 \<le> benefit a"
    using assms(1) by (auto simp: benefit_def)
  have "\<forall>a\<in>set S. \<exists>k. 0 \<le> k \<and> defense a = Finite (of_int k)"
  proof
    fix a assume "a \<in> set S"
    with sub have "a \<in> set armors" by (rule list_emb_set) simp
    with assms(1) show "\<exists>k. 0 \<le> k \<and> defense a = Finite (of_int k)" by simp
  qed
  from defense_sum_of_int [OF this] obtain m where m: "0 \<le> m" "defense_sum S = of_int m"
    by blast
  have "defense_sum S \<le> 2 ^ 53"
    using subseq_defense_le [OF sub nn] assms(2) by simp
  then have "(of_int m :: rat) \<le> of_int (2 ^ 53)"
    by (simp add: m(2))
  then have "m \<le> 2 ^ 53"
    by (subst (asm) of_int_le_iff)
  then have "\<bar>m\<bar> \<le> 2 ^ 53"
    using m(1) by simp
  then show "representable (defense_sum S)"
    unfolding m(2) by (rule representable_of_int)
qed

section \<open>Doubles without rounding error\<close>

lemma dadd_exact: "representable (x + y) \<Longrightarrow> dadd (Finite x) (Finite y) = Finite (x + y)"
  by (simp add: representable_def)

lemma dsub_exact: "representable (x - y) \<Longrightarrow> dsub (Finite x) (Finite y) = Finite (x - y)"
  by (simp add: dsub_def representable_def)

lemma dmax_Finite: "dmax (Finite x) (Finite y) = Finite (max x y)"
  by (simp add: dmax_def max_def)

lemma dneq_Finite: "dneq (Finite x) (Finite y) \<longleftrightarrow> x \<noteq> y"
  by (simp add: dneq_def)

lemma subseq_take: "subseq S (take i xs) \<Longrightarrow> subseq S xs"
proof -
  assume "subseq S (take i xs)"
  moreover have "subseq (take i xs) xs"
    by (rule prefix_imp_subseq) (rule take_is_prefix)
  ultimately show ?thesis
    by (rule subseq_order.trans)
qed

lemma exact_subseq:
  "exact_benefits armors \<Longrightarrow> subseq S armors \<Longrightarrow> representable (defense_sum S)"
  by (simp add: exact_benefits_def)

lemma exact_finite:
  "exact_benefits armors \<Longrightarrow> a \<in> set armors \<Longrightarrow> defense a = Finite (benefit a)"
  by (simp add: exact_benefits_def)

lemma exact_nth:
  "exact_benefits armors \<Longrightarrow> i < length armors \<Longrightarrow> defense (armors ! i) = Finite (benefit (armors ! i))"
  by (simp add: exact_finite)

lemma spec_T_representable:
  assumes "exact_benefits armors" "i \<le> length armors"
  shows "representable (spec_T armors i c)"
proof -
  have "subseq (rev (spec_walk armors i c)) armors"
    using spec_walk_subseq [OF assms(2), of c] by (rule subseq_take)
  with assms(1) have "representable (defense_sum (rev (spec_walk armors i c)))"
    by (rule exact_subseq)
  then show ?thesis
    by (simp add: spec_walk_defense)
qed

lemma spec_T_plus_representable:
  assumes "exact_benefits armors" "i < length armors"
  shows "representable (benefit (armors ! i) + spec_T armors i c)"
proof -
  let ?S = "rev (spec_walk armors i c) @ [armors ! i]"
  have "subseq (rev (spec_walk armors i c)) (take i armors)"
    using assms(2) by (intro spec_walk_subseq) simp
  then have "subseq ?S (take i armors @ [armors ! i])"
    by simp
  then have "subseq ?S (take (Suc i) armors)"
    using assms(2) by (simp add: take_Suc_conv_app_nth)
  then have "subseq ?S armors"
    by (rule subseq_take)
  with assms(1) have "representable (defense_sum ?S)"
    by (rule exact_subseq)
  then show ?thesis
    by (simp add: spec_walk_defense add.commute)
qed

section \<open>The table built by dynamic\_max\_defense\<close>

lemma spec_table_nth:
  "i < k \<Longrightarrow> spec_table armors maxcost k ! i = map (\<lambda>c. Finite (spec_T armors i c)) [0..maxcost]"
  by (simp add: spec_table_def)

lemma vector_at_upto:
  "0 \<le> c \<Longrightarrow> c \<le> m \<Longrightarrow> vector_at (map f [0..m]) c = Inr (f c)"
  by (simp add: vector_at_def)

lemma cell_spec:
  assumes "i \<le> length armors" "i \<le> k" "0 \<le> j" "j \<le> maxcost" "maxcost \<le> INT_MAX"
    and "\<forall>a\<in>set armors. 0 < cost a" and "exact_benefits armors"
  shows "cell armors (spec_table armors maxcost k) i j = Inr (Finite (spec_T armors i j))"
proof (cases i)
  case 0
  then show ?thesis by (simp add: cell_def)
next
  case (Suc i')
  let ?a = "armors ! i'"
  have a: "vector_at armors (int i - 1) = Inr ?a"
    using assms(1) Suc by (simp add: vector_at_def)
  have pos: "0 < cost ?a"
    using assms(1,6) Suc by simp
  have d: "defense ?a = Finite (benefit ?a)"
    using assms(1,7) Suc by (simp add: exact_nth)
  have row: "spec_table armors maxcost k ! (i - 1) = map (\<lambda>c. Finite (spec_T armors i' c)) [0..maxcost]"
    using assms(2) Suc by (simp add: spec_table_nth)
  have y: "vector_at (map (\<lambda>c. Finite (spec_T armors i' c)) [0..maxcost]) j
             = Inr (Finite (spec_T armors i' j))"
    using assms(3,4) by (intro vector_at_upto) auto
  show ?thesis
  proof (cases "j = 0")
    case True
    then show ?thesis using Suc by (simp add: cell_def)
  next
    case False
    show ?thesis
    proof (cases "cost ?a \<le> j")
      case True
      have sub: "int_sub j (cost ?a) = Inr (j - cost ?a)"
        using True pos assms(4,5) by (simp add: int_sub_def INT_MIN_def INT_MAX_def)
      have x: "vector_at (map (\<lambda>c. Finite (spec_T armors i' c)) [0..maxcost]) (j - cost ?a)
               = Inr (Finite (spec_T armors i' (j - cost ?a)))"
        using True pos assms(4) by (intro vector_at_upto) auto
      have "representable (benefit ?a + spec_T armors i' (j - cost ?a))"
        using assms(7,1) Suc by (intro spec_T_plus_representable) simp_all
      then have add: "dadd (defense ?a) (Finite (spec_T armors i' (j - cost ?a)))
                        = Finite (benefit ?a + spec_T armors i' (j - cost ?a))"
        unfolding d by (rule dadd_exact)
      show ?thesis
        using True False Suc a sub x y row add
        by (simp add: cell_def dmax_Finite max.commute)
    next
      case False
      show ?thesis
        using False \<open>j \<noteq> 0\<close> Suc a y row by (simp add: cell_def)
    qed
  qed
qed

lemma fill_row_spec:
  "matrix = spec_table armors maxcost k \<Longrightarrow> i \<le> length armors \<Longrightarrow> i \<le> k \<Longrightarrow>
   maxcost < INT_MAX \<Longrightarrow> \<forall>a\<in>set armors. 0 < cost a \<Longrightarrow> exact_benefits armors \<Longrightarrow> 0 \<le> j \<Longrightarrow>
   fill_row armors matrix i maxcost j v1
     = Inr (v1 @ map (\<lambda>c. Finite (spec_T armors i c)) [j..maxcost])"
proof (induction armors matrix i maxcost j v1 rule: fill_row.induct)
  case (1 armors matrix i maxcost j v1)
  show ?case
  proof (cases "j \<le> maxcost")
    case True
    have c: "cell armors matrix i j = Inr (Finite (spec_T armors i j))"
      unfolding 1(2) using 1(3-8) True by (intro cell_spec) auto
    have a: "int_add j 1 = Inr (j + 1)"
      using True 1(5,8) by (simp add: int_add_def INT_MIN_def INT_MAX_def)
    have "0 \<le> j + 1" using 1(8) by simp
    from 1(1) [OF True c a 1(2-7) this]
    have "fill_row armors matrix i maxcost (j + 1) (v1 @ [Finite (spec_T armors i j)])
            = Inr ((v1 @ [Finite (spec_T armors i j)])
                   @ map (\<lambda>c. Finite (spec_T armors i c)) [j + 1..maxcost])" .
    moreover have "[j..maxcost] = j # [j + 1..maxcost]"
      using True by (simp add: upto_rec1)
    ultimately show ?thesis
      using True c a by (subst fill_row.simps) simp
  next
    case False
    then show ?thesis by (subst fill_row.simps) simp
  qed
qed

lemma spec_table_Suc:
  "spec_table armors maxcost (Suc k)
     = spec_table armors maxcost k @ [map (\<lambda>c. Finite (spec_T armors k c)) [0..maxcost]]"
  by (simp add: spec_table_def)

lemma fill_matrix_spec:
  "matrix = spec_table armors maxcost i \<Longrightarrow> i \<le> Suc (length armors) \<Longrightarrow>
   maxcost < INT_MAX \<Longrightarrow> \<forall>a\<in>set armors. 0 < cost a \<Longrightarrow> exact_benefits armors \<Longrightarrow>
   fill_matrix armors maxcost i matrix = Inr (spec_table armors maxcost (Suc (length armors)))"
proof (induction armors maxcost i matrix rule: fill_matrix.induct)
  case (1 armors maxcost i matrix)
  show ?case
  proof (cases "i \<le> length armors")
    case True
    have r: "fill_row armors matrix i maxcost 0 []
               = Inr (map (\<lambda>c. Finite (spec_T armors i c)) [0..maxcost])"
      using fill_row_spec [OF 1(2) True _ 1(4,5,6), of 0 "[]"] by simp
    have m: "matrix @ [map (\<lambda>c. Finite (spec_T armors i c)) [0..maxcost]]
               = spec_table armors maxcost (i + 1)"
      using 1(2) by (simp add: spec_table_Suc)
    have "i + 1 \<le> Suc (length armors)" using True by simp
    from 1(1) [OF True r m this 1(4,5,6)]
    show ?thesis
      using True r by (subst fill_matrix.simps) simp
  next
    case False
    with 1(3) have "i = Suc (length armors)" by simp
    then show ?thesis
      using 1(2) by (subst fill_matrix.simps) simp
  qed
qed

lemma fill_matrix_table:
  assumes "maxcost < INT_MAX" "\<forall>a\<in>set armors. 0 < cost a" "exact_benefits armors"
  shows "fill_matrix armors maxcost 0 [] = Inr (spec_table armors maxcost (Suc (length armors)))"
  using fill_matrix_spec [OF _ _ assms, of "[]" 0] by (simp add: spec_table_def)

section \<open>The walk of dynamic\_max\_defense\<close>

lemma walk_spec:
  "matrix = spec_table armors budget (Suc (length armors)) \<Longrightarrow>
   w_n s \<le> length armors \<Longrightarrow> 0 \<le> w_maxcost s \<Longrightarrow> w_maxcost s \<le> budget \<Longrightarrow>
   budget \<le> INT_MAX \<Longrightarrow> \<forall>a\<in>set armors. 0 < cost a \<Longrightarrow> exact_benefits armors \<Longrightarrow>
   w_matrixValue s = Finite (spec_T armors (w_n s) (w_maxcost s)) \<Longrightarrow>
   \<exists>s'. walk armors matrix s = Inr s' \<and>
        w_result s' = w_result s @ spec_walk armors (w_n s) (w_maxcost s) \<and>
        (w_n s' = 0 \<or> w_matrixValue s' = Finite 0) \<and>
        w_n s' \<le> w_n s"
proof (induction armors matrix s rule: walk.induct)
  case (1 armors matrix s)
  let ?n = "w_n s" and ?c = "w_maxcost s"
  show ?case
  proof (cases "dneq (w_matrixValue s) (Finite 0) \<and> ?n \<noteq> 0")
    case False
    then have "spec_T armors ?n ?c = 0 \<or> ?n = 0"
      using 1(10) by (simp add: dneq_Finite)
    then have "spec_walk armors ?n ?c = []"
      by (auto simp: spec_walk_zero)
    moreover from False have "w_n s = 0 \<or> w_matrixValue s = Finite 0"
      using 1(10) by (auto simp: dneq_Finite)
    ultimately show ?thesis
      using False by (subst walk.simps) auto
  next
    case True
    then obtain i where i: "?n = Suc i" by (cases ?n) auto
    have cur: "vector_at (matrix ! ?n) ?c = Inr (Finite (spec_T armors ?n ?c))"
      unfolding 1(3) using 1(4-6) by (simp add: spec_table_nth vector_at_upto)
    have prev: "vector_at (matrix ! (?n - 1)) ?c = Inr (Finite (spec_T armors i ?c))"
      unfolding 1(3) using 1(4-6) i by (simp add: spec_table_nth vector_at_upto)
    show ?thesis
    proof (cases "dneq (Finite (spec_T armors ?n ?c)) (Finite (spec_T armors i ?c))")
      case False
      let ?s' = "s\<lparr>w_n := ?n - 1\<rparr>"
      have eq: "spec_T armors (Suc i) ?c = spec_T armors i ?c"
        using False i by (simp add: dneq_Finite)
      have val: "w_matrixValue ?s' = Finite (spec_T armors (w_n ?s') (w_maxcost ?s'))"
        using 1(10) i eq by simp
      have len: "w_n ?s' \<le> length armors"
        using 1(4) by simp
      have "\<exists>s'. walk armors matrix ?s' = Inr s' \<and>
              w_result s' = w_result ?s' @ spec_walk armors (w_n ?s') (w_maxcost ?s') \<and>
              (w_n s' = 0 \<or> w_matrixValue s' = Finite 0) \<and> w_n s' \<le> w_n ?s'"
        using 1(5,6)
        by (intro 1(2) [OF True cur prev False 1(3) len _ _ 1(7,8,9) val]) simp_all
      moreover have "spec_walk armors ?n ?c = spec_walk armors i ?c"
        unfolding i using eq by (simp del: spec_T.simps)
      moreover have "walk armors matrix s = walk armors matrix ?s'"
        using True cur prev False by (subst walk.simps) simp
      ultimately show ?thesis
        using i by auto
    next
      case incl: True
      let ?a = "armors ! i"
      have a: "vector_at armors (int ?n - 1) = Inr ?a"
        using 1(4) i by (simp add: vector_at_def)
      have pos: "0 < cost ?a"
        using 1(4,8) i by simp
      have d: "defense ?a = Finite (benefit ?a)"
        using 1(4,9) i by (simp add: exact_nth)
      have neq: "spec_T armors (Suc i) ?c \<noteq> spec_T armors i ?c"
        using incl i by (simp add: dneq_Finite)
      note inc = spec_T_include [OF neq]
      have sub: "int_sub ?c (cost ?a) = Inr (?c - cost ?a)"
        using inc(2) pos 1(6,7) by (simp add: int_sub_def INT_MIN_def INT_MAX_def)
      let ?s' = "\<lparr>w_result = w_result s @ [?a],
                  w_matrixValue = dsub (w_matrixValue s) (defense ?a),
                  w_maxcost = ?c - cost ?a, w_n = ?n - 1\<rparr>"
      have "representable (spec_T armors i (?c - cost ?a))"
        using 1(9,4) i by (intro spec_T_representable) simp_all
      then have "representable (spec_T armors (Suc i) ?c - benefit ?a)"
        using inc(3) by simp
      then have "dsub (Finite (spec_T armors (Suc i) ?c)) (Finite (benefit ?a))
                   = Finite (spec_T armors (Suc i) ?c - benefit ?a)"
        by (rule dsub_exact)
      then have val: "w_matrixValue ?s' = Finite (spec_T armors (w_n ?s') (w_maxcost ?s'))"
        using 1(10) i inc(3) d by (simp del: spec_T.simps)
      have len: "w_n ?s' \<le> length armors"
        using 1(4) by simp
      have lo: "0 \<le> w_maxcost ?s'"
        using inc(2) by simp
      have hi: "w_maxcost ?s' \<le> budget"
        using pos 1(6) by simp
      have "\<exists>s'. walk armors matrix ?s' = Inr s' \<and>
              w_result s' = w_result ?s' @ spec_walk armors (w_n ?s') (w_maxcost ?s') \<and>
              (w_n s' = 0 \<or> w_matrixValue s' = Finite 0) \<and> w_n s' \<le> w_n ?s'"
        by (rule 1(1) [OF True cur prev incl a sub 1(3) len lo hi 1(7,8,9) val])
      moreover have "spec_walk armors ?n ?c = ?a # spec_walk armors i (?c - cost ?a)"
        unfolding i using neq by (simp del: spec_T.simps)
      moreover have "walk armors matrix s = walk armors matrix ?s'"
        using True cur prev incl a sub by (subst walk.simps) simp
      ultimately show ?thesis
        using i by auto
    qed
  qed
qed

lemma dynamic_walk_spec:
  assumes "\<forall>a\<in>set armors. 0 < cost a" "exact_benefits armors" "0 \<le> total_cost"
    "total_cost < INT_MAX"
  shows "\<exists>s. dynamic_walk armors total_cost = Inr s \<and>
             w_result s = spec_walk armors (length armors) total_cost \<and>
             (w_n s = 0 \<or> w_matrixValue s = Finite 0)"
proof -
  let ?N = "length armors"
  let ?matrix = "spec_table armors total_cost (Suc ?N)"
  let ?s0 = "\<lparr>w_result = [], w_matrixValue = Finite (spec_T armors ?N total_cost),
              w_maxcost = total_cost, w_n = ?N\<rparr>"
  have m: "fill_matrix armors total_cost 0 [] = Inr ?matrix"
    using assms(4,1,2) by (rule fill_matrix_table)
  have v: "vector_at (?matrix ! ?N) total_cost = Inr (Finite (spec_T armors ?N total_cost))"
    using assms(3) by (simp add: spec_table_nth vector_at_upto)
  have "\<exists>s'. walk armors ?matrix ?s0 = Inr s' \<and>
          w_result s' = w_result ?s0 @ spec_walk armors (w_n ?s0) (w_maxcost ?s0) \<and>
          (w_n s' = 0 \<or> w_matrixValue s' = Finite 0) \<and> w_n s' \<le> w_n ?s0"
  proof (rule walk_spec)
    show "total_cost \<le> INT_MAX" using assms(4) by simp
  qed (use assms in simp_all)
  then show ?thesis
    unfolding dynamic_walk_def using m v by auto
qed

lemma dynamic_max_defense_spec:
  assumes "\<forall>a\<in>set armors. 0 < cost a" "exact_benefits armors" "0 \<le> total_cost"
    "total_cost < INT_MAX"
  shows "dynamic_max_defense armors total_cost = Inr (spec_walk armors (length armors) total_cost)"
  using dynamic_walk_spec [OF assms] by (auto simp: dynamic_max_defense_def)

lemma table_entry_spec:
  assumes "\<forall>a\<in>set armors. 0 < cost a" "exact_benefits armors" "total_cost < INT_MAX"
    "i \<le> length armors" "0 \<le> c" "c \<le> total_cost"
  shows "table_entry armors total_cost i c = Inr (Finite (spec_T armors i c))"
  unfolding table_entry_def fill_matrix_table [OF assms(3,1,2)]
  using assms(4-6) by (simp add: spec_table_nth vector_at_upto)

text \<open>With a budget of 0 every row of the table is the single entry 0 and the walk takes nothing, whatever the catalog.\<close>

lemma fill_row_zero: "fill_row armors matrix i 0 0 [] = Inr [Finite 0]"
proof -
  have c: "cell armors matrix i 0 = Inr (Finite 0)"
    by (simp add: cell_def)
  have a: "int_add 0 1 = Inr 1"
    by (simp add: int_add_def INT_MIN_def INT_MAX_def)
  have "fill_row armors matrix i 0 1 [Finite 0] = Inr [Finite 0]"
    by (subst fill_row.simps) simp
  then show ?thesis
    using c a by (subst fill_row.simps) simp
qed

lemma fill_matrix_zero:
  "i \<le> Suc (length armors) \<Longrightarrow>
   fill_matrix armors 0 i matrix = Inr (matrix @ replicate (Suc (length armors) - i) [Finite 0])"
proof (induction armors "0::int" i matrix rule: fill_matrix.induct)
  case (1 armors i matrix)
  show ?case
  proof (cases "i \<le> length armors")
    case True
    have "i + 1 \<le> Suc (length armors)" using True by simp
    from 1(1) [OF True fill_row_zero this]
    have "fill_matrix armors 0 (i + 1) (matrix @ [[Finite 0]])
            = Inr ((matrix @ [[Finite 0]]) @ replicate (Suc (length armors) - (i + 1)) [Finite 0])" .
    moreover have "replicate (Suc (length armors) - i) [Finite 0]
                     = [Finite 0] # replicate (Suc (length armors) - (i + 1)) [Finite 0]"
      using True by (simp add: Suc_diff_le replicate_Suc [symmetric] del: replicate_Suc)
    ultimately show ?thesis
      using True by (subst fill_matrix.simps) (simp add: fill_row_zero)
  next
    case False
    with 1(2) show ?thesis by (subst fill_matrix.simps) simp
  qed
qed

lemma dynamic_zero_budget: "dynamic_max_defense armors 0 = Inr []"
proof -
  let ?matrix = "replicate (Suc (length armors)) [Finite 0 :: double]"
  let ?s0 = "\<lparr>w_result = [], w_matrixValue = Finite 0, w_maxcost = 0, w_n = length armors\<rparr>"
  have m: "fill_matrix armors 0 0 [] = Inr ?matrix"
    using fill_matrix_zero [of 0 armors "[]"] by simp
  have "?matrix ! length armors = [Finite 0]"
    by (rule nth_replicate) simp
  then have v: "vector_at (?matrix ! length armors) 0 = Inr (Finite 0)"
    by (simp add: vector_at_def)
  have w: "walk armors ?matrix ?s0 = Inr ?s0"
    by (subst walk.simps) (simp add: dneq_def)
  show ?thesis
    unfolding dynamic_max_defense_def dynamic_walk_def m using v w by simp
qed


text \<open>
  With the budget \<^const>\<open>INT_MAX\<close> the counter \<open>j\<close> of line 294 cannot pass the budget:
  row 0 is filled up to column \<^const>\<open>INT_MAX\<close>, and the increment overflows.
\<close>

lemma fill_row_overflows:
  "maxcost = INT_MAX \<Longrightarrow> 0 \<le> j \<Longrightarrow> j \<le> INT_MAX \<Longrightarrow>
   fill_row armors matrix 0 maxcost j v1 = Inl SignedOverflow"
proof (induction armors matrix "0::nat" maxcost j v1 rule: fill_row.induct)
  case (1 armors matrix maxcost j v1)
  have c: "cell armors matrix 0 j = Inr (Finite 0)"
    by (simp add: cell_def)
  show ?case
  proof (cases "j = INT_MAX")
    case True
    then have "int_add j 1 = Inl SignedOverflow"
      by (simp add: int_add_def INT_MAX_def INT_MIN_def)
    with c 1(2-4) show ?thesis
      by (subst fill_row.simps) simp
  next
    case False
    then have a: "int_add j 1 = Inr (j + 1)"
      using 1(3,4) by (simp add: int_add_def INT_MAX_def INT_MIN_def)
    have "fill_row armors matrix 0 maxcost (j + 1) (v1 @ [Finite 0]) = Inl SignedOverflow"
      using 1(2-4) False by (intro 1(1) [OF _ c a]) simp_all
    with c a 1(2-4) show ?thesis
      by (subst fill_row.simps) simp
  qed
qed

lemma dynamic_int_max_budget: "dynamic_max_defense armors INT_MAX = Inl SignedOverflow"
proof -
  have "fill_row armors [] 0 INT_MAX 0 [] = Inl SignedOverflow"
    by (rule fill_row_overflows) (simp_all add: INT_MAX_def)
  then have "fill_matrix armors INT_MAX 0 [] = Inl SignedOverflow"
    by (subst fill_matrix.simps) simp
  then show ?thesis
    by (simp add: dynamic_max_defense_def dynamic_walk_def)
qed

section \<open>sum\_armor\_vector on a selection\<close>

lemma sum_loop_cost:
  "sum_loop S c d = Inr (c', d') \<Longrightarrow> c' = c + cost_sum S"
proof (induction S arbitrary: c d)
  case Nil
  then show ?case by simp
next
  case (Cons a S)
  from Cons.prems obtain c1 where c1: "int_add c (cost a) = Inr c1"
    and r: "sum_loop S c1 (dadd d (defense a)) = Inr (c', d')"
    by (auto split: sum.splits)
  from c1 have "c1 = c + cost a"
    by (auto simp: int_add_def split: if_splits)
  with Cons.IH [OF r] show ?case by simp
qed

lemma sum_loop_in_range:
  "0 \<le> c \<Longrightarrow> \<forall>a\<in>set S. 0 < cost a \<Longrightarrow> c + cost_sum S \<le> INT_MAX \<Longrightarrow>
   \<exists>d'. sum_loop S c d = Inr (c + cost_sum S, d')"
proof (induction S arbitrary: c d)
  case Nil
  then show ?case by simp
next
  case (Cons a S)
  have "0 \<le> cost_sum S"
    using Cons.prems(2) by (intro cost_sum_nonneg) simp
  then have "int_add c (cost a) = Inr (c + cost a)"
    using Cons.prems by (simp add: int_add_def INT_MIN_def)
  moreover have "\<exists>d'. sum_loop S (c + cost a) (dadd d (defense a))
                   = Inr (c + cost a + cost_sum S, d')"
    using Cons.prems by (intro Cons.IH) simp_all
  ultimately show ?case by (simp add: add.assoc)
qed

lemma sum_loop_exact:
  "sum_loop S c (Finite t) = Inr (c', d') \<Longrightarrow> \<forall>a\<in>set S. defense a = Finite (benefit a) \<Longrightarrow>
   \<forall>P. prefix P S \<longrightarrow> representable (t + defense_sum P) \<Longrightarrow>
   d' = Finite (t + defense_sum S)"
proof (induction S arbitrary: c t)
  case Nil
  then show ?case by simp
next
  case (Cons a S)
  from Cons.prems(1) obtain c1 where
    r: "sum_loop S c1 (dadd (Finite t) (defense a)) = Inr (c', d')"
    by (auto split: sum.splits)
  have "prefix [a] (a # S)" by simp
  with Cons.prems(3) have "representable (t + defense_sum [a])" by blast
  then have "dadd (Finite t) (Finite (benefit a)) = Finite (t + benefit a)"
    by (intro dadd_exact) simp
  then have "dadd (Finite t) (defense a) = Finite (t + benefit a)"
    using Cons.prems(2) by simp
  with r have r': "sum_loop S c1 (Finite (t + benefit a)) = Inr (c', d')" by simp
  have fin: "\<forall>a\<in>set S. defense a = Finite (benefit a)"
    using Cons.prems(2) by simp
  have pre: "\<forall>P. prefix P S \<longrightarrow> representable (t + benefit a + defense_sum P)"
  proof (intro allI impI)
    fix P assume "prefix P S"
    then have "prefix (a # P) (a # S)" by simp
    with Cons.prems(3) have "representable (t + defense_sum (a # P))" by blast
    then show "representable (t + benefit a + defense_sum P)" by (simp add: add.assoc)
  qed
  from Cons.IH [OF r' fin pre] show ?case by (simp add: add.assoc)
qed

text \<open>
  A selection of a catalog without rounding error, in the order of the catalog or in
  the reverse order: when \<^verbatim>\<open>sum_armor_vector\<close> returns, it returns the exact sums.
\<close>

lemma sum_armor_vector_exact:
  assumes "sum_armor_vector S = Inr (c, d)" "exact_benefits armors"
    and "subseq S armors \<or> subseq (rev S) armors"
  shows "c = cost_sum S" and "d = Finite (defense_sum S)"
proof -
  show "c = cost_sum S"
    using sum_loop_cost [of S 0 "Finite 0" c d] assms(1) by (simp add: sum_armor_vector_def)
  have mem: "a \<in> set armors" if "a \<in> set S" for a
  proof -
    from assms(3) show ?thesis
    proof
      assume "subseq S armors"
      from this that show ?thesis by (rule list_emb_set) simp
    next
      assume "subseq (rev S) armors"
      moreover from that have "a \<in> set (rev S)" by simp
      ultimately show ?thesis by (rule list_emb_set) simp
    qed
  qed
  have fin: "\<forall>a\<in>set S. defense a = Finite (benefit a)"
    using mem assms(2) by (auto simp: exact_finite)
  have pre: "\<forall>P. prefix P S \<longrightarrow> representable (0 + defense_sum P)"
  proof (intro allI impI)
    fix P assume P: "prefix P S"
    from assms(3) have "representable (defense_sum P)"
    proof
      assume "subseq S armors"
      with P have "subseq P armors"
        by (meson prefix_imp_subseq subseq_order.trans)
      with assms(2) show ?thesis by (rule exact_subseq)
    next
      assume r: "subseq (rev S) armors"
      from P have "suffix (rev P) (rev S)"
        by (simp add: suffix_to_prefix)
      then have "subseq (rev P) (rev S)"
        by (rule suffix_imp_subseq)
      with r have "subseq (rev P) armors"
        by (meson subseq_order.trans)
      with assms(2) have "representable (defense_sum (rev P))" by (rule exact_subseq)
      then show ?thesis by simp
    qed
    then show "representable (0 + defense_sum P)" by simp
  qed
  from sum_loop_exact [OF _ fin pre, of 0 c d] assms(1)
  show "d = Finite (defense_sum S)"
    by (simp add: sum_armor_vector_def)
qed

lemma sum_armor_vector_in_range:
  "\<forall>a\<in>set S. 0 < cost a \<Longrightarrow> cost_sum S \<le> INT_MAX \<Longrightarrow>
   \<exists>d. sum_armor_vector S = Inr (cost_sum S, d)"
  unfolding sum_armor_vector_def using sum_loop_in_range [of 0 S "Finite 0"] by simp

section \<open>What dynamic\_max\_defense returns\<close>

text \<open>
  For a catalog without rounding error, with positive costs, and a budget from 0 to
  \<open>INT_MAX - 1\<close>, no read of the table is out of range, the walk ends, and the items
  returned are those of the walk of the specification: a selection of the catalog
  within the budget whose benefit no selection within the budget exceeds.
\<close>

lemma dynamic_sound:
  assumes "\<forall>a\<in>set armors. 0 < cost a" "exact_benefits armors" "0 \<le> b" "b < INT_MAX"
  shows "\<exists>sol. dynamic_max_defense armors b = Inr sol \<and> subseq (rev sol) armors \<and>
               cost_sum sol \<le> b \<and> defense_sum sol = spec_T armors (length armors) b \<and>
               sum_armor_vector sol = Inr (cost_sum sol, Finite (defense_sum sol)) \<and>
               (\<forall>S. subseq S armors \<and> cost_sum S \<le> b \<longrightarrow> defense_sum S \<le> defense_sum sol)"
proof -
  let ?sol = "spec_walk armors (length armors) b"
  have r: "dynamic_max_defense armors b = Inr ?sol"
    using assms by (rule dynamic_max_defense_spec)
  have sub: "subseq (rev ?sol) armors"
    using spec_walk_subseq [of "length armors" armors b] by simp
  have c: "cost_sum ?sol \<le> b"
    using assms(3) by (rule spec_walk_cost)
  have d: "defense_sum ?sol = spec_T armors (length armors) b"
    by (rule spec_walk_defense)
  have pos: "\<forall>a\<in>set ?sol. 0 < cost a"
    using subseq_positive [OF sub assms(1)] by simp
  have "cost_sum ?sol \<le> INT_MAX"
    using c assms(4) by simp
  with pos obtain x where x: "sum_armor_vector ?sol = Inr (cost_sum ?sol, x)"
    using sum_armor_vector_in_range [of ?sol] by blast
  have "x = Finite (defense_sum ?sol)"
    using x assms(2) sub by (intro sum_armor_vector_exact(2) [of ?sol _ x armors]) simp_all
  with x have agg: "sum_armor_vector ?sol = Inr (cost_sum ?sol, Finite (defense_sum ?sol))"
    by simp
  have opt: "defense_sum S \<le> defense_sum ?sol" if "subseq S armors" "cost_sum S \<le> b" for S
    using spec_T_upper [OF _ assms(1,3), of "length armors" S] that d by simp
  from r sub c d agg opt show ?thesis by blast
qed

section \<open>The enumeration of exhaustive\_max\_defense\<close>

text \<open>
  Up to 32 items the inner loop builds the selection of the mask; from 33 items on it
  shifts a 32-bit \<^verbatim>\<open>int\<close> by 32 at the first mask.
\<close>

lemma shift_and_one: "(drop_bit j (bits :: int)) AND 1 = 1 \<longleftrightarrow> bit bits j"
  by (simp add: and_one_eq bit_iff_odd_drop_bit mod_2_eq_odd)

lemma candidate_loop_spec:
  "length armors \<le> 32 \<Longrightarrow> j \<le> length armors \<Longrightarrow>
   candidate_loop armors bits j candidate
     = Inr (candidate @ map (nth armors) (filter (bit bits) [j..<length armors]))"
proof (induction armors bits j candidate rule: candidate_loop.induct)
  case (1 armors bits j candidate)
  show ?case
  proof (cases "j < length armors")
    case True
    then have j32: "\<not> 32 \<le> j" using 1(2) by simp
    have u: "[j..<length armors] = j # [j + 1..<length armors]"
      using True by (simp add: upt_conv_Cons)
    have "candidate_loop armors bits (j + 1)
            (if (drop_bit j bits) AND 1 = 1 then candidate @ [armors ! j] else candidate)
          = Inr ((if (drop_bit j bits) AND 1 = 1 then candidate @ [armors ! j] else candidate)
                 @ map (nth armors) (filter (bit bits) [j + 1..<length armors]))"
      using True j32 1(2) by (intro 1(1)) simp_all
    then show ?thesis
      using True j32 by (subst candidate_loop.simps, subst u) (simp add: shift_and_one)
  next
    case False
    with 1(3) show ?thesis by (subst candidate_loop.simps) simp
  qed
qed

lemma candidate_is_mask_subset:
  "length armors \<le> 32 \<Longrightarrow> candidate_loop armors bits 0 [] = Inr (mask_subset armors bits)"
  unfolding mask_subset_def by (subst candidate_loop_spec) simp_all

lemma candidate_loop_too_wide:
  "32 < length armors \<Longrightarrow> j \<le> 32 \<Longrightarrow> candidate_loop armors bits j candidate = Inl ShiftTooWide"
proof (induction armors bits j candidate rule: candidate_loop.induct)
  case (1 armors bits j candidate)
  show ?case
  proof (cases "32 \<le> j")
    case True
    with 1(2,3) show ?thesis by (subst candidate_loop.simps) simp
  next
    case False
    then have "candidate_loop armors bits (j + 1)
            (if (drop_bit j bits) AND 1 = 1 then candidate @ [armors ! j] else candidate)
          = Inl ShiftTooWide"
      using 1(2,3) by (intro 1(1)) simp_all
    then show ?thesis
      using False 1(2,3) by (subst candidate_loop.simps) simp
  qed
qed

lemma mask_subset_Nil: "mask_subset [] m = []"
  by (simp add: mask_subset_def)

lemma mask_subset_Cons:
  "mask_subset (x # xs) m = (if odd m then [x] else []) @ mask_subset xs (m div 2)"
proof -
  have "[0..<length (x # xs)] = 0 # map Suc [0..<length xs]"
    by (simp add: upt_conv_Cons map_Suc_upt del: upt_Suc)
  then show ?thesis
    by (simp add: mask_subset_def filter_map comp_def bit_Suc bit_0 del: upt_Suc)
qed

lemma mask_subset_subseq: "subseq (mask_subset xs m) xs"
proof (induction xs arbitrary: m)
  case Nil
  show ?case by (simp add: mask_subset_Nil)
next
  case (Cons x xs)
  show ?case
  proof (cases "odd m")
    case True
    with Cons [of "m div 2"] show ?thesis by (simp add: mask_subset_Cons)
  next
    case False
    with Cons [of "m div 2"] show ?thesis by (simp add: mask_subset_Cons list_emb_Cons)
  qed
qed

lemma subseq_is_mask_subset:
  "subseq S xs \<Longrightarrow> \<exists>m. 0 \<le> m \<and> m < 2 ^ length xs \<and> mask_subset xs m = S"
proof (induction xs arbitrary: S)
  case Nil
  then have "S = []" by (auto dest: list_emb_Nil2)
  then have "(0::int) \<le> 0 \<and> (0::int) < 2 ^ length ([] :: ArmorVector) \<and> mask_subset [] 0 = S"
    by (simp add: mask_subset_Nil)
  then show ?case by blast
next
  case (Cons x xs)
  show ?case
  proof (cases "subseq S xs")
    case True
    from Cons.IH [OF True] obtain m where m: "0 \<le> m" "m < 2 ^ length xs" "mask_subset xs m = S"
      by blast
    have "mask_subset (x # xs) (2 * m) = S"
      using m(3) by (simp add: mask_subset_Cons)
    moreover have "0 \<le> 2 * m" "2 * m < 2 ^ length (x # xs)"
      using m(1,2) by simp_all
    ultimately show ?thesis by blast
  next
    case False
    with Cons.prems obtain S' where S': "S = x # S'" "subseq S' xs"
      by (cases rule: list_emb.cases) auto
    from Cons.IH [OF S'(2)] obtain m where m: "0 \<le> m" "m < 2 ^ length xs" "mask_subset xs m = S'"
      by blast
    have "mask_subset (x # xs) (2 * m + 1) = S"
      using m(3) S'(1) by (simp add: mask_subset_Cons)
    moreover have "0 \<le> 2 * m + 1" "2 * m + 1 < 2 ^ length (x # xs)"
      using m(1,2) by simp_all
    ultimately show ?thesis by blast
  qed
qed

text \<open>Two masks below \<open>2^k\<close> with the same bits below \<open>k\<close> are the same mask.\<close>

lemma mask_determined_by_bits:
  fixes m m' :: int
  assumes "0 \<le> m" "m < 2 ^ k" "0 \<le> m'" "m' < 2 ^ k"
    and "\<forall>j<k. bit m j \<longleftrightarrow> bit m' j"
  shows "m = m'"
proof -
  have "take_bit k m = take_bit k m'"
    using assms(5) by (intro bit_eqI) (auto simp: bit_take_bit_iff)
  moreover have "take_bit k m = m" "take_bit k m' = m'"
    using assms(1-4) by (simp_all add: take_bit_int_eq_self)
  ultimately show ?thesis by simp
qed

lemma bits_less_pow: "real_of_int bits < 2 ^ k \<longleftrightarrow> bits < 2 ^ k"
  by (metis of_int_less_iff of_int_numeral of_int_power)

lemma int_add_one: "int_add bits 1 = Inr bits' \<Longrightarrow> bits' = bits + 1"
  by (auto simp: int_add_def split: if_splits)

lemma exhaustive_loop_done:
  "\<not> bits < 2 ^ length armors \<Longrightarrow> exhaustive_loop armors B bits best bd = Inr best"
  by (subst exhaustive_loop.simps) (simp add: bits_less_pow)

lemma exhaustive_loop_step:
  assumes "bits < 2 ^ length armors"
    and "candidate_loop armors bits 0 [] = Inr candidate"
    and "sum_armor_vector candidate = Inr (c, d)"
    and "int_add bits 1 = Inr bits'"
  shows "exhaustive_loop armors B bits best bd
           = exhaustive_loop armors B bits'
               (if real_of_int c \<le> B \<and> dless bd d then candidate else best)
               (if real_of_int c \<le> B \<and> dless bd d then d else bd)"
  using assms by (subst exhaustive_loop.simps) (simp add: bits_less_pow Let_def)

lemma exhaustive_loop_Inr_step:
  assumes "exhaustive_loop armors B bits best bd = Inr r" "bits < 2 ^ length armors"
  obtains candidate c d bits' where
    "candidate_loop armors bits 0 [] = Inr candidate"
    "sum_armor_vector candidate = Inr (c, d)"
    "int_add bits 1 = Inr bits'"
proof -
  from assms have "\<exists>candidate c d bits'.
      candidate_loop armors bits 0 [] = Inr candidate \<and>
      sum_armor_vector candidate = Inr (c, d) \<and> int_add bits 1 = Inr bits'"
    by (subst (asm) exhaustive_loop.simps) (auto simp: bits_less_pow Let_def split: sum.splits)
  with that show ?thesis by blast
qed

lemma exhaustive_loop_error:
  assumes "bits < 2 ^ length armors"
    and "candidate_loop armors bits 0 [] = Inl e"
  shows "exhaustive_loop armors B bits best bd = Inl e"
  using assms by (subst exhaustive_loop.simps) (simp add: bits_less_pow)

lemma exhaustive_loop_overflow_step:
  assumes "bits < 2 ^ length armors"
    and "candidate_loop armors bits 0 [] = Inr candidate"
    and "sum_armor_vector candidate = Inr (c, d)"
    and "int_add bits 1 = Inl e"
  shows "exhaustive_loop armors B bits best bd = Inl e"
  using assms by (subst exhaustive_loop.simps) (simp add: bits_less_pow Let_def)

lemma exhaustive_loop_too_wide:
  assumes "32 < length armors" "length armors < 64"
  shows "exhaustive_loop armors B 0 best bd = Inl ShiftTooWide"
proof -
  have "(0::int) < 2 ^ length armors" by simp
  moreover have "candidate_loop armors 0 0 [] = Inl ShiftTooWide"
    using assms(1) by (intro candidate_loop_too_wide) simp_all
  ultimately show ?thesis
    by (rule exhaustive_loop_error)
qed

lemma exhaustive_too_wide:
  assumes "32 < length armors" "length armors < 64"
  shows "exhaustive_max_defense armors B = Inl ShiftTooWide"
  using exhaustive_loop_too_wide [OF assms] assms(2) by (simp add: exhaustive_max_defense_def)

lemma exhaustive_Inr_length:
  assumes "exhaustive_max_defense armors B = Inr sol"
  shows "length armors \<le> 32"
proof (rule ccontr)
  assume "\<not> length armors \<le> 32"
  then have w: "32 < length armors" by simp
  show False
  proof (cases "length armors < 64")
    case True
    with w assms show False by (simp add: exhaustive_too_wide)
  next
    case False
    with assms show False by (simp add: exhaustive_max_defense_def)
  qed
qed

text \<open>
  With positive costs that add up to at most \<^const>\<open>INT_MAX\<close> the sum of the costs of a
  candidate does not overflow.
\<close>

lemma candidate_sum_in_range:
  assumes "\<forall>a\<in>set armors. 0 < cost a" "cost_sum armors \<le> INT_MAX"
  shows "\<exists>d. sum_armor_vector (mask_subset armors bits)
               = Inr (cost_sum (mask_subset armors bits), d)"
proof (rule sum_armor_vector_in_range)
  show "\<forall>a\<in>set (mask_subset armors bits). 0 < cost a"
    using mask_subset_subseq assms(1) by (rule subseq_positive)
  have "cost_sum (mask_subset armors bits) \<le> cost_sum armors"
    using mask_subset_subseq assms(1) by (rule subseq_cost_le)
  with assms(2) show "cost_sum (mask_subset armors bits) \<le> INT_MAX"
    by simp
qed

text \<open>
  Up to 30 items the counter stays below \<open>2^30\<close> and the loop returns; with 31 or 32
  items the counter reaches \<^const>\<open>INT_MAX\<close> while the test of the loop still holds.
\<close>

lemma exhaustive_loop_returns:
  "length armors \<le> 30 \<Longrightarrow> \<forall>a\<in>set armors. 0 < cost a \<Longrightarrow> cost_sum armors \<le> INT_MAX \<Longrightarrow>
   0 \<le> bits \<Longrightarrow> \<exists>r. exhaustive_loop armors B bits best bd = Inr r"
proof (induction armors B bits best bd rule: exhaustive_loop.induct)
  case (1 armors B bits best bd)
  show ?case
  proof (cases "bits < 2 ^ length armors")
    case False
    then show ?thesis by (simp add: exhaustive_loop_done)
  next
    case True
    let ?cand = "mask_subset armors bits"
    have c: "candidate_loop armors bits 0 [] = Inr ?cand"
      using 1(2) by (simp add: candidate_is_mask_subset)
    obtain d where s: "sum_armor_vector ?cand = Inr (cost_sum ?cand, d)"
      using candidate_sum_in_range [OF 1(3,4)] by blast
    have "(2::int) ^ length armors \<le> 2 ^ 30"
      using 1(2) by (intro power_increasing) simp_all
    then have a: "int_add bits 1 = Inr (bits + 1)"
      using True 1(5) by (simp add: int_add_def INT_MIN_def INT_MAX_def)
    have rb: "real_of_int bits < 2 ^ length armors"
      using True by (simp add: bits_less_pow)
    have "0 \<le> bits + 1" using 1(5) by simp
    from 1(1) [OF rb c s refl refl a 1(2,3,4) this]
    show ?thesis
      unfolding exhaustive_loop_step [OF True c s a, of B best bd] .
  qed
qed

lemma exhaustive_loop_overflows:
  "31 \<le> length armors \<Longrightarrow> length armors \<le> 32 \<Longrightarrow>
   \<forall>a\<in>set armors. 0 < cost a \<Longrightarrow> cost_sum armors \<le> INT_MAX \<Longrightarrow>
   0 \<le> bits \<Longrightarrow> bits \<le> INT_MAX \<Longrightarrow>
   exhaustive_loop armors B bits best bd = Inl SignedOverflow"
proof (induction armors B bits best bd rule: exhaustive_loop.induct)
  case (1 armors B bits best bd)
  let ?cand = "mask_subset armors bits"
  have "(2::int) ^ 31 \<le> 2 ^ length armors"
    using 1(2) by (intro power_increasing) simp_all
  then have lt: "bits < 2 ^ length armors"
    using 1(7) by (simp add: INT_MAX_def)
  have c: "candidate_loop armors bits 0 [] = Inr ?cand"
    using 1(3) by (simp add: candidate_is_mask_subset)
  obtain d where s: "sum_armor_vector ?cand = Inr (cost_sum ?cand, d)"
    using candidate_sum_in_range [OF 1(4,5)] by blast
  show ?case
  proof (cases "bits = INT_MAX")
    case True
    then have "int_add bits 1 = Inl SignedOverflow"
      by (simp add: int_add_def INT_MAX_def)
    with lt c s show ?thesis by (rule exhaustive_loop_overflow_step)
  next
    case False
    then have a: "int_add bits 1 = Inr (bits + 1)"
      using 1(6,7) by (simp add: int_add_def INT_MIN_def INT_MAX_def)
    have rb: "real_of_int bits < 2 ^ length armors"
      using lt by (simp add: bits_less_pow)
    have b: "0 \<le> bits + 1" "bits + 1 \<le> INT_MAX"
      using 1(6,7) False by simp_all
    from 1(1) [OF rb c s refl refl a 1(2,3,4,5) b]
    show ?thesis
      unfolding exhaustive_loop_step [OF lt c s a, of B best bd] .
  qed
qed

lemma exhaustive_returns:
  assumes "length armors \<le> 30" "\<forall>a\<in>set armors. 0 < cost a" "cost_sum armors \<le> INT_MAX"
  shows "\<exists>sol. exhaustive_max_defense armors B = Inr sol"
  using exhaustive_loop_returns [OF assms, of 0 B "[]" "Finite 0"] assms(1)
  by (simp add: exhaustive_max_defense_def)

lemma exhaustive_overflows:
  assumes "31 \<le> length armors" "length armors \<le> 32"
    "\<forall>a\<in>set armors. 0 < cost a" "cost_sum armors \<le> INT_MAX"
  shows "exhaustive_max_defense armors B = Inl SignedOverflow"
  using exhaustive_loop_overflows [OF assms, of 0 B "[]" "Finite 0"] assms(2)
  by (simp add: exhaustive_max_defense_def INT_MAX_def)

lemma replicate_helmet:
  "\<forall>a\<in>set (replicate k helmet). 0 < cost a" "cost_sum (replicate k helmet) = int k"
  by (auto simp: helmet_def cost_sum_def sum_list_replicate)

text \<open>
  The costs of a candidate are added in an \<^verbatim>\<open>int\<close>: with two items of cost \<open>2^30\<close>
  the sum for the mask 3 overflows.
\<close>

lemma exhaustive_cost_overflow: "exhaustive_max_defense [heavy, heavy] 0 = Inl SignedOverflow"
  by code_simp

section \<open>What exhaustive\_max\_defense returns\<close>

lemma examined_done: "\<not> bits < 2 ^ length armors \<Longrightarrow> examined armors B bits best bd best"
  unfolding examined_def by (intro exI [of _ bd]) auto

lemma examined_step:
  assumes ex: "examined armors B (bits + 1)
                 (if real_of_int (cost_sum cand) \<le> B \<and> bd < defense_sum cand then cand else best)
                 (if real_of_int (cost_sum cand) \<le> B \<and> bd < defense_sum cand
                  then defense_sum cand else bd) r"
    and cand: "cand = mask_subset armors bits" and lt: "bits < 2 ^ length armors"
    and agg: "sum_armor_vector cand = Inr (cost_sum cand, Finite (defense_sum cand))"
  shows "examined armors B bits best bd r"
proof -
  let ?better = "real_of_int (cost_sum cand) \<le> B \<and> bd < defense_sum cand"
  let ?best' = "if ?better then cand else best"
  let ?bd' = "if ?better then defense_sum cand else bd"
  from ex obtain rd where
    src: "(r = ?best' \<and> rd = ?bd') \<or>
          (\<exists>m. bits + 1 \<le> m \<and> m < 2 ^ length armors \<and> r = mask_subset armors m \<and>
               real_of_int (cost_sum r) \<le> B \<and> rd = defense_sum r \<and>
               sum_armor_vector r = Inr (cost_sum r, Finite rd))"
    and ge: "?bd' \<le> rd"
    and all: "\<forall>m. bits + 1 \<le> m \<and> m < 2 ^ length armors \<and>
                real_of_int (cost_sum (mask_subset armors m)) \<le> B
                \<longrightarrow> defense_sum (mask_subset armors m) \<le> rd"
    unfolding examined_def by blast
  have 1: "(r = best \<and> rd = bd) \<or>
           (\<exists>m. bits \<le> m \<and> m < 2 ^ length armors \<and> r = mask_subset armors m \<and>
                real_of_int (cost_sum r) \<le> B \<and> rd = defense_sum r \<and>
                sum_armor_vector r = Inr (cost_sum r, Finite rd))"
  proof (cases "r = ?best' \<and> rd = ?bd'")
    case True
    show ?thesis
    proof (cases ?better)
      case b: True
      with True have "bits \<le> bits \<and> bits < 2 ^ length armors \<and> r = mask_subset armors bits \<and>
                real_of_int (cost_sum r) \<le> B \<and> rd = defense_sum r \<and>
                sum_armor_vector r = Inr (cost_sum r, Finite rd)"
        using cand lt agg by simp
      then show ?thesis by blast
    next
      case False
      with True show ?thesis by simp
    qed
  next
    case False
    with src obtain m where "bits + 1 \<le> m" "m < 2 ^ length armors" "r = mask_subset armors m"
      "real_of_int (cost_sum r) \<le> B" "rd = defense_sum r"
      "sum_armor_vector r = Inr (cost_sum r, Finite rd)"
      by blast
    then have "bits \<le> m \<and> m < 2 ^ length armors \<and> r = mask_subset armors m \<and>
                real_of_int (cost_sum r) \<le> B \<and> rd = defense_sum r \<and>
                sum_armor_vector r = Inr (cost_sum r, Finite rd)"
      by simp
    then show ?thesis by blast
  qed
  have 2: "bd \<le> rd"
    using ge by (simp split: if_splits)
  have 3: "defense_sum (mask_subset armors m) \<le> rd"
    if m: "bits \<le> m" "m < 2 ^ length armors" "real_of_int (cost_sum (mask_subset armors m)) \<le> B"
    for m
  proof (cases "m = bits")
    case True
    then have "defense_sum (mask_subset armors m) \<le> ?bd'"
      using m(3) cand by simp
    with ge show ?thesis by linarith
  next
    case False
    with m have "bits + 1 \<le> m" by simp
    with all m show ?thesis by blast
  qed
  from 1 2 3 show ?thesis
    unfolding examined_def by blast
qed

text \<open>
  On a catalog without rounding error the comparison of line 364 compares the exact
  benefits, so a run that returns has taken every mask below \<open>2^N\<close> into account.
\<close>

lemma exhaustive_loop_examined:
  "exhaustive_loop armors B bits best bd' = Inr r \<Longrightarrow> bd' = Finite bd \<Longrightarrow>
   length armors \<le> 32 \<Longrightarrow> exact_benefits armors \<Longrightarrow> examined armors B bits best bd r"
proof (induction armors B bits best bd' arbitrary: bd rule: exhaustive_loop.induct)
  case (1 armors B bits best bd')
  show ?case
  proof (cases "bits < 2 ^ length armors")
    case False
    with 1(2) have "r = best" by (simp add: exhaustive_loop_done)
    with False show ?thesis by (simp add: examined_done)
  next
    case True
    from 1(2) True obtain candidate c d bits' where
      st: "candidate_loop armors bits 0 [] = Inr candidate"
          "sum_armor_vector candidate = Inr (c, d)"
          "int_add bits 1 = Inr bits'"
      by (rule exhaustive_loop_Inr_step)
    have cand: "candidate = mask_subset armors bits"
      using st(1) 1(4) by (simp add: candidate_is_mask_subset)
    have sub: "subseq candidate armors"
      unfolding cand by (rule mask_subset_subseq)
    have cd: "c = cost_sum candidate" "d = Finite (defense_sum candidate)"
      using sum_armor_vector_exact [OF st(2) 1(5)] sub by simp_all
    have b': "bits' = bits + 1"
      using st(3) by (rule int_add_one)
    let ?better = "real_of_int c \<le> B \<and> dless bd' d"
    let ?exact = "real_of_int (cost_sum candidate) \<le> B \<and> bd < defense_sum candidate"
    have better: "?better = ?exact"
      unfolding cd 1(3) by simp
    have run: "exhaustive_loop armors B bits'
                 (if ?better then candidate else best) (if ?better then d else bd') = Inr r"
      using exhaustive_loop_step [OF True st, of B best bd'] 1(2) by simp
    have rb: "real_of_int bits < 2 ^ length armors"
      using True by (simp add: bits_less_pow)
    have fin: "(if ?better then d else bd')
                 = Finite (if ?exact then defense_sum candidate else bd)"
      unfolding better cd 1(3) by simp
    have "examined armors B bits'
            (if ?better then candidate else best)
            (if ?exact then defense_sum candidate else bd) r"
      by (rule 1(1) [OF rb st(1,2) refl refl st(3) run fin 1(4,5)])
    then have "examined armors B (bits + 1)
            (if ?exact then candidate else best)
            (if ?exact then defense_sum candidate else bd) r"
      unfolding b' better .
    then show ?thesis
    proof (rule examined_step)
      show "candidate = mask_subset armors bits" by (rule cand)
      show "bits < 2 ^ length armors" by (rule True)
      show "sum_armor_vector candidate = Inr (cost_sum candidate, Finite (defense_sum candidate))"
        using st(2) cd by simp
    qed
  qed
qed

lemma exhaustive_sound:
  assumes "exhaustive_max_defense armors B = Inr sol" "exact_benefits armors"
  shows "subseq sol armors"
    and "0 \<le> B \<Longrightarrow> real_of_int (cost_sum sol) \<le> B"
    and "sum_armor_vector sol = Inr (cost_sum sol, Finite (defense_sum sol))"
    and "subseq S armors \<Longrightarrow> real_of_int (cost_sum S) \<le> B \<Longrightarrow> defense_sum S \<le> defense_sum sol"
proof -
  have n: "length armors \<le> 32"
    using assms(1) by (rule exhaustive_Inr_length)
  have "exhaustive_loop armors B 0 [] (Finite 0) = Inr sol"
    using assms(1) by (simp add: exhaustive_max_defense_def split: if_splits)
  then have "examined armors B 0 [] 0 sol"
    using refl n assms(2) by (rule exhaustive_loop_examined)
  then obtain rd where
    src: "(sol = [] \<and> rd = 0) \<or>
          (\<exists>m. 0 \<le> m \<and> m < 2 ^ length armors \<and> sol = mask_subset armors m \<and>
               real_of_int (cost_sum sol) \<le> B \<and> rd = defense_sum sol \<and>
               sum_armor_vector sol = Inr (cost_sum sol, Finite rd))"
    and all: "\<forall>m. 0 \<le> m \<and> m < 2 ^ length armors \<and>
                real_of_int (cost_sum (mask_subset armors m)) \<le> B
                \<longrightarrow> defense_sum (mask_subset armors m) \<le> rd"
    unfolding examined_def by blast
  from src have rd: "rd = defense_sum sol"
    by auto
  from src show "subseq sol armors"
    by (auto simp: mask_subset_subseq)
  from src show "0 \<le> B \<Longrightarrow> real_of_int (cost_sum sol) \<le> B"
    by auto
  from src show "sum_armor_vector sol = Inr (cost_sum sol, Finite (defense_sum sol))"
    by (auto simp: sum_armor_vector_def)
  show "defense_sum S \<le> defense_sum sol"
    if "subseq S armors" "real_of_int (cost_sum S) \<le> B"
  proof -
    from subseq_is_mask_subset [OF that(1)]
    obtain m where m: "0 \<le> m" "m < 2 ^ length armors" "mask_subset armors m = S"
      by blast
    with all that(2) rd show ?thesis by auto
  qed
qed

text \<open>
  On a catalog without rounding error, where the exhaustive search returns, both
  solvers return selections of the same aggregate benefit.
\<close>

lemma solvers_agree:
  assumes "\<forall>a\<in>set armors. 0 < cost a" "exact_benefits armors" "0 \<le> b" "b < INT_MAX"
    and "exhaustive_max_defense armors (real_of_int b) = Inr s2"
  shows "\<exists>s1. dynamic_max_defense armors b = Inr s1 \<and> defense_sum s1 = defense_sum s2"
proof -
  from dynamic_sound [OF assms(1-4)] obtain s1 where
    s1: "dynamic_max_defense armors b = Inr s1" "subseq (rev s1) armors" "cost_sum s1 \<le> b"
    and opt: "\<forall>S. subseq S armors \<and> cost_sum S \<le> b \<longrightarrow> defense_sum S \<le> defense_sum s1"
    by blast
  have "subseq s2 armors" "real_of_int (cost_sum s2) \<le> real_of_int b"
    using exhaustive_sound(1,2) [OF assms(5,2)] assms(3) by simp_all
  then have "defense_sum s2 \<le> defense_sum s1"
    using opt by simp
  moreover have "defense_sum (rev s1) \<le> defense_sum s2"
    using s1(2,3) by (intro exhaustive_sound(4) [OF assms(5,2)]) simp_all
  ultimately have "defense_sum s1 = defense_sum s2"
    by simp
  with s1(1) show ?thesis by blast
qed

section \<open>Degenerate inputs\<close>

text \<open>
  Whatever the benefits are, a solution that the exhaustive search returns is the
  initial \<^verbatim>\<open>best\<close> or the selection of a mask whose cost is within the budget.
\<close>

lemma exhaustive_loop_feasible:
  "exhaustive_loop armors B bits best bd = Inr r \<Longrightarrow> length armors \<le> 32 \<Longrightarrow>
   r = best \<or> (\<exists>m. r = mask_subset armors m \<and> real_of_int (cost_sum r) \<le> B)"
proof (induction armors B bits best bd rule: exhaustive_loop.induct)
  case (1 armors B bits best bd)
  show ?case
  proof (cases "bits < 2 ^ length armors")
    case False
    with 1(2) show ?thesis by (simp add: exhaustive_loop_done)
  next
    case True
    from 1(2) True obtain candidate c d bits' where
      st: "candidate_loop armors bits 0 [] = Inr candidate"
          "sum_armor_vector candidate = Inr (c, d)"
          "int_add bits 1 = Inr bits'"
      by (rule exhaustive_loop_Inr_step)
    have cand: "candidate = mask_subset armors bits"
      using st(1) 1(3) by (simp add: candidate_is_mask_subset)
    have c: "c = cost_sum candidate"
      using st(2) sum_loop_cost [of candidate 0 "Finite 0" c d] by (simp add: sum_armor_vector_def)
    let ?better = "real_of_int c \<le> B \<and> dless bd d"
    have run: "exhaustive_loop armors B bits'
                 (if ?better then candidate else best) (if ?better then d else bd) = Inr r"
      using exhaustive_loop_step [OF True st, of B best bd] 1(2) by simp
    have rb: "real_of_int bits < 2 ^ length armors"
      using True by (simp add: bits_less_pow)
    have "r = (if ?better then candidate else best) \<or>
          (\<exists>m. r = mask_subset armors m \<and> real_of_int (cost_sum r) \<le> B)"
      by (rule 1(1) [OF rb st(1,2) refl refl st(3) run 1(3)])
    then show ?thesis
      using cand c by (auto split: if_splits)
  qed
qed

lemma exhaustive_feasible:
  assumes "exhaustive_max_defense armors B = Inr sol"
  shows "subseq sol armors" and "0 \<le> B \<Longrightarrow> real_of_int (cost_sum sol) \<le> B"
proof -
  have n: "length armors \<le> 32"
    using assms by (rule exhaustive_Inr_length)
  have "exhaustive_loop armors B 0 [] (Finite 0) = Inr sol"
    using assms by (simp add: exhaustive_max_defense_def split: if_splits)
  from exhaustive_loop_feasible [OF this n]
  have *: "sol = [] \<or> (\<exists>m. sol = mask_subset armors m \<and> real_of_int (cost_sum sol) \<le> B)" .
  then show "subseq sol armors"
    by (auto simp: mask_subset_subseq)
  from * show "0 \<le> B \<Longrightarrow> real_of_int (cost_sum sol) \<le> B"
    by auto
qed

text \<open>
  The degenerate inputs on which both solvers return the empty solution: the empty
  catalog, with a budget below \<^const>\<open>INT_MAX\<close> for \<^verbatim>\<open>dynamic_max_defense\<close>; and a budget
  of 0, with any catalog for \<^verbatim>\<open>dynamic_max_defense\<close> and a catalog of at most 30 items
  of positive cost, adding up to at most \<^const>\<open>INT_MAX\<close>, for \<^verbatim>\<open>exhaustive_max_defense\<close>.
  \<^verbatim>\<open>sum_armor_vector\<close> gives the empty solution cost 0 and benefit 0.
\<close>

lemma degenerate_inputs_hold:
  assumes "0 \<le> b" "b < INT_MAX"
    "\<forall>a\<in>set small. 0 < cost a" "length small \<le> 30" "cost_sum small \<le> INT_MAX"
  shows "dynamic_max_defense [] b = Inr []" "exhaustive_max_defense [] B = Inr []"
    "dynamic_max_defense armors 0 = Inr []" "exhaustive_max_defense small 0 = Inr []"
    "sum_armor_vector [] = Inr (0, Finite 0)"
proof -
  have "exact_benefits []"
    by (simp add: exact_benefits_def defense_sum_def representable_def round_double_def)
  then show "dynamic_max_defense [] b = Inr []"
    using dynamic_max_defense_spec [of "[]" b] assms(1,2) by simp
  obtain sol where sol: "exhaustive_max_defense [] B = Inr sol"
    using exhaustive_returns [of "[]" B] by (auto simp: INT_MAX_def)
  from exhaustive_feasible(1) [OF sol] have "sol = []"
    by (auto dest: list_emb_Nil2)
  with sol show "exhaustive_max_defense [] B = Inr []" by simp
  show "dynamic_max_defense armors 0 = Inr []"
    by (rule dynamic_zero_budget)
  obtain s where s: "exhaustive_max_defense small 0 = Inr s"
    using exhaustive_returns [OF assms(4,3,5), of 0] by auto
  have "subseq s small" "real_of_int (cost_sum s) \<le> 0"
    using exhaustive_feasible [OF s] by simp_all
  then have "s = []"
    using cost_sum_pos [of s] subseq_positive [OF _ assms(3), of s] by fastforce
  with s show "exhaustive_max_defense small 0 = Inr []" by simp
  show "sum_armor_vector [] = Inr (0, Finite 0)"
    by (simp add: sum_armor_vector_def)
qed

section \<open>The claims about the dynamic-programming solver\<close>

text \<open>
  C6, on the catalogs without rounding error: for a catalog of \<open>N\<close> items with positive
  costs, finite benefits and selections whose benefit totals are all values of doubles,
  and a budget from 0 to below \<^const>\<open>INT_MAX\<close>, \<^verbatim>\<open>dynamic_max_defense\<close> builds a table of
  \<open>N + 1\<close> rows and \<open>budget + 1\<close> columns whose entry \<open>T[i][c]\<close> obeys the base cases and
  the recurrence of the specification (\<^const>\<open>spec_T\<close>) and is the maximum benefit of the
  selections of the first \<open>i\<close> items that cost at most \<open>c\<close>; it returns a solution, and
  the aggregate benefit that \<^verbatim>\<open>sum_armor_vector\<close> computes for that solution is
  \<open>T[N][budget]\<close>.
\<close>

theorem dynamic_table_value_exact:
  assumes "positive_costs armors" "exact_benefits armors" "0 \<le> total_cost" "total_cost < INT_MAX"
  shows "\<exists>matrix sol.
           fill_matrix armors total_cost 0 [] = Inr matrix \<and>
           dynamic_max_defense armors total_cost = Inr sol \<and>
           length matrix = length armors + 1 \<and>
           (\<forall>i\<in>{0..length armors}.
              length (matrix ! i) = nat total_cost + 1 \<and>
              (\<forall>c\<in>{0..total_cost}.
                 matrix ! i ! nat c = Finite (spec_T armors i c) \<and>
                 max_benefit (take i armors) c (spec_T armors i c))) \<and>
           sum_armor_vector sol = Inr (cost_sum sol, matrix ! length armors ! nat total_cost)"
proof -
  let ?N = "length armors"
  let ?matrix = "spec_table armors total_cost (Suc ?N)"
  have pos: "\<forall>a\<in>set armors. 0 < cost a"
    using assms(1) by (simp add: positive_costs_def)
  have m: "fill_matrix armors total_cost 0 [] = Inr ?matrix"
    using assms(4,2) pos by (intro fill_matrix_table) simp_all
  from dynamic_sound [OF pos assms(2-4)] obtain sol where
    s: "dynamic_max_defense armors total_cost = Inr sol"
    and d: "defense_sum sol = spec_T armors ?N total_cost"
    and agg: "sum_armor_vector sol = Inr (cost_sum sol, Finite (defense_sum sol))"
    by blast
  have len: "length ?matrix = ?N + 1"
    by (simp add: spec_table_def)
  have entry: "?matrix ! i ! nat c = Finite (spec_T armors i c)"
    if "i \<le> ?N" "0 \<le> c" "c \<le> total_cost" for i c
    using that by (simp add: spec_table_nth)
  have rows: "length (?matrix ! i) = nat total_cost + 1 \<and>
              (\<forall>c\<in>{0..total_cost}.
                 ?matrix ! i ! nat c = Finite (spec_T armors i c) \<and>
                 max_benefit (take i armors) c (spec_T armors i c))"
    if "i \<in> {0..?N}" for i
  proof (intro conjI ballI)
    show "length (?matrix ! i) = nat total_cost + 1"
      using that assms(3) by (simp add: spec_table_nth)
  next
    fix c assume c: "c \<in> {0..total_cost}"
    then show "?matrix ! i ! nat c = Finite (spec_T armors i c)"
      using that entry by simp
    show "max_benefit (take i armors) c (spec_T armors i c)"
      using that c pos by (intro spec_T_max_benefit) simp_all
  qed
  have val: "sum_armor_vector sol = Inr (cost_sum sol, ?matrix ! ?N ! nat total_cost)"
    using entry [of ?N total_cost] assms(3) agg d by simp
  from m s len rows val show ?thesis
    by blast
qed

theorem dynamic_table_value_exact_witness:
  "positive_costs scenario1 \<and> exact_benefits scenario1 \<and> (0::int) \<le> 5 \<and> (5::int) < INT_MAX \<and>
   (\<exists>matrix sol.
      fill_matrix scenario1 5 0 [] = Inr matrix \<and>
      dynamic_max_defense scenario1 5 = Inr sol \<and>
      length matrix = length scenario1 + 1 \<and>
      (\<forall>i\<in>{0..length scenario1}.
         length (matrix ! i) = nat 5 + 1 \<and>
         (\<forall>c\<in>{0..5}.
            matrix ! i ! nat c = Finite (spec_T scenario1 i c) \<and>
            max_benefit (take i scenario1) c (spec_T scenario1 i c))) \<and>
      sum_armor_vector sol = Inr (cost_sum sol, matrix ! length scenario1 ! nat 5))"
proof -
  have h1: "positive_costs scenario1" by (simp add: positive_costs_def scenario1_def)
  have h2: "exact_benefits scenario1" by code_simp
  have h3: "(0::int) \<le> 5" by simp
  have h4: "(5::int) < INT_MAX" by (simp add: INT_MAX_def)
  from dynamic_table_value_exact [OF h1 h2 h3 h4] h1 h2 h3 h4 show ?thesis
    by blast
qed

text \<open>
  C6 as it is stated fails, because the table and the aggregate are sums of doubles.
  With three items of cost 1 and the benefits \<^verbatim>\<open>0.1\<close>, \<^verbatim>\<open>0.2\<close>, \<^verbatim>\<open>0.3\<close> and a budget of 3,
  the entry \<open>T[3][3]\<close> is the double \<^verbatim>\<open>0.6000000000000001\<close>, which is
  \<open>(0.1 + 0.2) + 0.3\<close> rounded twice, while the solution returned lists the items as
  C, B, A and \<^verbatim>\<open>sum_armor_vector\<close> adds them up to the double \<^verbatim>\<open>0.6\<close>. Neither is the
  exact total of the three benefits.
\<close>

theorem table_value_rounded:
  "positive_costs tenths \<and>
   table_entry tenths 3 3 3 = Inr (Finite (1351079888211149 / 2251799813685248)) \<and>
   dynamic_max_defense tenths 3 = Inr [tenths ! 2, tenths ! 1, tenths ! 0] \<and>
   sum_armor_vector [tenths ! 2, tenths ! 1, tenths ! 0]
     = Inr (3, Finite (5404319552844595 / 9007199254740992)) \<and>
   defense_sum tenths = 21617278211378381 / 36028797018963968"
  by code_simp

text \<open>
  C5 on the catalog of an item A of benefit 1 followed by an item B of benefit \<open>2^53\<close>,
  both of cost 1, and a budget of 2. The table has \<open>T[2][2] = 2^53\<close>, since \<open>2^53 + 1\<close>
  is rounded to \<open>2^53\<close>. The walk takes B, its residual \<^verbatim>\<open>matrixValue\<close> becomes
  \<open>2^53 - 2^53 = 0\<close>, and the loop of line 313 is left with the prefix index at 1
  and the result \<open>[B]\<close>. The entries \<open>T[1][1] = 1\<close> and \<open>T[0][1] = 0\<close> of the same table
  differ, so a walk that runs until the prefix index is 0, as \<^const>\<open>spec_walk\<close> does,
  takes A as well.
\<close>

theorem walk_stops_on_residual:
  "dynamic_walk absorbed 2
     = Inr \<lparr>w_result = [absorbed ! 1], w_matrixValue = Finite 0, w_maxcost = 1, w_n = 1\<rparr> \<and>
   table_entry absorbed 2 2 2 = Inr (Finite 9007199254740992) \<and>
   table_entry absorbed 2 1 1 = Inr (Finite 1) \<and>
   table_entry absorbed 2 0 1 = Inr (Finite 0) \<and>
   spec_walk absorbed 2 2 = [absorbed ! 1, absorbed ! 0]"
  by code_simp

section \<open>The claims about the exhaustive search\<close>

text \<open>
  C7: called with a catalog of 64 or more items, \<^verbatim>\<open>exhaustive_max_defense\<close> stops at
  its assertion; it returns no result and enumerates nothing.
\<close>

theorem exhaustive_rejects_64: "64 \<le> length armors \<Longrightarrow> exhaustive_max_defense armors total_cost = Inl AssertionFailed"
  by (simp add: exhaustive_max_defense_def)

theorem exhaustive_rejects_64_witness:
  "64 \<le> length (replicate 64 helmet) \<and>
   exhaustive_max_defense (replicate 64 helmet) 5
     = Inl AssertionFailed"
  using exhaustive_rejects_64 [of "replicate 64 helmet" 5]
  by simp

text \<open>
  C4 on a catalog of 32 items: the counter \<^verbatim>\<open>bits\<close> is a 32-bit \<^verbatim>\<open>int\<close>, so the
  masks from \<open>2^31\<close> to \<open>2^32 - 1\<close>, which stand for the selections that hold item 31,
  are never reached. The loop runs through the masks \<open>0\<close> to \<^const>\<open>INT_MAX\<close>, its test
  \<^verbatim>\<open>bits < pow(2,n)\<close> still holds, and the increment overflows.
\<close>

theorem exhaustive_32_items: "exhaustive_max_defense (replicate 32 helmet) 0 = Inl SignedOverflow"
  using replicate_helmet [of 32] by (intro exhaustive_overflows) (simp_all add: INT_MAX_def)

text \<open>
  C1 on a catalog of 31 items: every mask from \<open>0\<close> to \<open>2^31 - 1\<close> is examined, but no
  \<^verbatim>\<open>int\<close> is as large as \<open>2^31\<close>, so the loop cannot end by its test; the increment
  after the last mask overflows and no solution is returned.
\<close>

theorem exhaustive_31_items: "exhaustive_max_defense (replicate 31 helmet) 0 = Inl SignedOverflow"
  using replicate_helmet [of 31] by (intro exhaustive_overflows) (simp_all add: INT_MAX_def)

text \<open>
  C3 on a catalog of 33 items and a budget of 0: \<^verbatim>\<open>dynamic_max_defense\<close> returns the
  empty solution, of benefit 0. In \<^verbatim>\<open>exhaustive_max_defense\<close> the inner loop reaches
  \<open>j = 32\<close> at the first mask and shifts the 32-bit \<^verbatim>\<open>bits\<close> by 32, which is
  undefined: no solution is returned whose benefit could be compared.
\<close>

theorem exhaustive_33_items:
  "dynamic_max_defense (replicate 33 helmet) 0 = Inr [] \<and>
   exhaustive_max_defense (replicate 33 helmet) 0 = Inl ShiftTooWide"
proof
  show "dynamic_max_defense (replicate 33 helmet) 0 = Inr []"
    by (rule dynamic_zero_budget)
  show "exhaustive_max_defense (replicate 33 helmet) 0 = Inl ShiftTooWide"
    by (rule exhaustive_too_wide) simp_all
qed

text \<open>
  C2 on a catalog of 63 items, the largest that the assertion admits: the same shift
  by 32 at the first mask; no solution, feasible or not, is returned.
\<close>

theorem exhaustive_63_items: "exhaustive_max_defense (replicate 63 helmet) 0 = Inl ShiftTooWide"
  by (rule exhaustive_too_wide) simp_all


section \<open>The claims about both solvers\<close>

text \<open>
  C8 on a budget of 0 and a catalog of 31 items of cost 1, which is within the
  precondition \<open>N < 64\<close> of the exhaustive search: \<^verbatim>\<open>dynamic_max_defense\<close> returns the
  empty solution, but \<^verbatim>\<open>exhaustive_max_defense\<close> returns none. Its 32-bit counter
  \<^verbatim>\<open>bits\<close> can never reach \<open>2^31\<close>, and the increment after the mask \<^const>\<open>INT_MAX\<close>
  overflows.
\<close>

theorem zero_budget_31_items:
  "dynamic_max_defense (replicate 31 helmet) 0 = Inr [] \<and>
   exhaustive_max_defense (replicate 31 helmet) 0 = Inl SignedOverflow"
proof (intro conjI)
  show "dynamic_max_defense (replicate 31 helmet) 0 = Inr []"
    by (rule dynamic_zero_budget)
  show "exhaustive_max_defense (replicate 31 helmet) 0 = Inl SignedOverflow"
    using replicate_helmet [of 31] by (intro exhaustive_overflows) (simp_all add: INT_MAX_def)
qed

text \<open>
  C9, on the catalogs without rounding error: for a catalog with positive costs, finite
  benefits and selections whose benefit totals are all values of doubles, and budgets
  \<open>0 \<le> b1 \<le> b2\<close>, \<^verbatim>\<open>dynamic_max_defense\<close> returns a solution at each budget (\<open>b2\<close> below
  \<^const>\<open>INT_MAX\<close>) and the benefit at \<open>b2\<close> is at least the benefit at \<open>b1\<close>; whenever
  \<^verbatim>\<open>exhaustive_max_defense\<close> returns solutions at both budgets, the same holds of them,
  and it does return them for catalogs of at most 30 items whose costs add up to at
  most \<^const>\<open>INT_MAX\<close>. For each of these solutions the benefit that \<^verbatim>\<open>sum_armor_vector\<close>
  computes is the exact total of its benefits.
\<close>

theorem budget_monotone_exact:
  assumes "positive_costs armors" "exact_benefits armors"
    "0 \<le> b1" "b1 \<le> b2" "b2 < INT_MAX" "0 \<le> B1" "B1 \<le> B2"
  shows "(\<exists>s1 s2. dynamic_max_defense armors b1 = Inr s1 \<and>
                  dynamic_max_defense armors b2 = Inr s2 \<and>
                  sum_armor_vector s1 = Inr (cost_sum s1, Finite (defense_sum s1)) \<and>
                  sum_armor_vector s2 = Inr (cost_sum s2, Finite (defense_sum s2)) \<and>
                  defense_sum s1 \<le> defense_sum s2) \<and>
         (\<forall>s1 s2. exhaustive_max_defense armors B1 = Inr s1 \<and>
                  exhaustive_max_defense armors B2 = Inr s2
                  \<longrightarrow> sum_armor_vector s1 = Inr (cost_sum s1, Finite (defense_sum s1)) \<and>
                      sum_armor_vector s2 = Inr (cost_sum s2, Finite (defense_sum s2)) \<and>
                      defense_sum s1 \<le> defense_sum s2) \<and>
         (length armors \<le> 30 \<and> cost_sum armors \<le> INT_MAX
            \<longrightarrow> (\<exists>s1 s2. exhaustive_max_defense armors B1 = Inr s1 \<and>
                         exhaustive_max_defense armors B2 = Inr s2))"
proof (intro conjI)
  have pos: "\<forall>a\<in>set armors. 0 < cost a"
    using assms(1) by (simp add: positive_costs_def)
  have b1: "0 \<le> b1" "b1 < INT_MAX"
    using assms(3-5) by simp_all
  have b2: "0 \<le> b2" "b2 < INT_MAX"
    using assms(3-5) by simp_all
  from dynamic_sound [OF pos assms(2) b1] obtain s1 where
    s1: "dynamic_max_defense armors b1 = Inr s1"
        "defense_sum s1 = spec_T armors (length armors) b1"
        "sum_armor_vector s1 = Inr (cost_sum s1, Finite (defense_sum s1))"
    by blast
  from dynamic_sound [OF pos assms(2) b2] obtain s2 where
    s2: "dynamic_max_defense armors b2 = Inr s2"
        "defense_sum s2 = spec_T armors (length armors) b2"
        "sum_armor_vector s2 = Inr (cost_sum s2, Finite (defense_sum s2))"
    by blast
  have "defense_sum s1 \<le> defense_sum s2"
    using spec_T_mono_budget [OF pos assms(3,4)] s1(2) s2(2) by simp
  with s1 s2 show "\<exists>s1 s2. dynamic_max_defense armors b1 = Inr s1 \<and>
                  dynamic_max_defense armors b2 = Inr s2 \<and>
                  sum_armor_vector s1 = Inr (cost_sum s1, Finite (defense_sum s1)) \<and>
                  sum_armor_vector s2 = Inr (cost_sum s2, Finite (defense_sum s2)) \<and>
                  defense_sum s1 \<le> defense_sum s2"
    by blast
next
  show "\<forall>s1 s2. exhaustive_max_defense armors B1 = Inr s1 \<and>
                exhaustive_max_defense armors B2 = Inr s2
                \<longrightarrow> sum_armor_vector s1 = Inr (cost_sum s1, Finite (defense_sum s1)) \<and>
                    sum_armor_vector s2 = Inr (cost_sum s2, Finite (defense_sum s2)) \<and>
                    defense_sum s1 \<le> defense_sum s2"
  proof (intro allI impI)
    fix s1 s2
    assume r: "exhaustive_max_defense armors B1 = Inr s1 \<and>
               exhaustive_max_defense armors B2 = Inr s2"
    then have r1: "exhaustive_max_defense armors B1 = Inr s1"
      and r2: "exhaustive_max_defense armors B2 = Inr s2"
      by simp_all
    have "subseq s1 armors" "real_of_int (cost_sum s1) \<le> B1"
      using exhaustive_sound(1,2) [OF r1 assms(2)] assms(6) by simp_all
    then have "subseq s1 armors" "real_of_int (cost_sum s1) \<le> B2"
      using assms(7) by simp_all
    then have "defense_sum s1 \<le> defense_sum s2"
      by (rule exhaustive_sound(4) [OF r2 assms(2)])
    then show "sum_armor_vector s1 = Inr (cost_sum s1, Finite (defense_sum s1)) \<and>
               sum_armor_vector s2 = Inr (cost_sum s2, Finite (defense_sum s2)) \<and>
               defense_sum s1 \<le> defense_sum s2"
      using exhaustive_sound(3) [OF r1 assms(2)] exhaustive_sound(3) [OF r2 assms(2)] by simp
  qed
next
  show "length armors \<le> 30 \<and> cost_sum armors \<le> INT_MAX
          \<longrightarrow> (\<exists>s1 s2. exhaustive_max_defense armors B1 = Inr s1 \<and>
                       exhaustive_max_defense armors B2 = Inr s2)"
    using exhaustive_returns [of armors B1] exhaustive_returns [of armors B2] assms(1)
    by (auto simp: positive_costs_def)
qed

theorem budget_monotone_exact_witness:
  "positive_costs scenario1 \<and> exact_benefits scenario1 \<and>
   (0::int) \<le> 4 \<and> (4::int) \<le> 5 \<and> 5 < INT_MAX \<and> (0::real) \<le> 4 \<and> (4::real) \<le> 5 \<and>
   (\<exists>s1 s2. dynamic_max_defense scenario1 4 = Inr s1 \<and>
            dynamic_max_defense scenario1 5 = Inr s2 \<and>
            defense_sum s1 \<le> defense_sum s2) \<and>
   (\<exists>s1 s2. exhaustive_max_defense scenario1 4 = Inr s1 \<and>
            exhaustive_max_defense scenario1 5 = Inr s2 \<and>
            defense_sum s1 \<le> defense_sum s2)"
proof -
  have h1: "positive_costs scenario1" by (simp add: positive_costs_def scenario1_def)
  have h2: "exact_benefits scenario1" by code_simp
  have h: "(0::int) \<le> 4" "(4::int) \<le> 5" "5 < INT_MAX" "(0::real) \<le> 4" "(4::real) \<le> 5"
    by (simp_all add: INT_MAX_def)
  have small: "length scenario1 \<le> 30 \<and> cost_sum scenario1 \<le> INT_MAX"
    by (simp add: scenario1_def INT_MAX_def cost_sum_def)
  from budget_monotone_exact [OF h1 h2 h] small h1 h2 h show ?thesis
    by blast
qed

text \<open>
  C9 as it is stated fails, because benefits are added and compared as doubles. On the
  catalog of the costs 4, 3, 3, 1 and the benefits \<^verbatim>\<open>1.1\<close>, \<^verbatim>\<open>3.8\<close>, \<^verbatim>\<open>3.2\<close>, \<^verbatim>\<open>1.1\<close>,
  \<^verbatim>\<open>dynamic_max_defense\<close> returns D, C, B at budget 9 and C, B, A at budget 10, and
  \<^verbatim>\<open>sum_armor_vector\<close> gives the first the benefit \<^verbatim>\<open>8.100000000000001\<close> and the second
  the smaller benefit \<^verbatim>\<open>8.1\<close>. On the catalog of the costs 2, 2, 3, 1 and the benefits
  \<^verbatim>\<open>0.7\<close>, \<^verbatim>\<open>2.5\<close>, \<^verbatim>\<open>3.2\<close>, \<^verbatim>\<open>3.7\<close>, both solvers return C and D at budget 4 and A, B
  and D at budget 5, and the exact benefit total of A, B and D is the smaller one.
\<close>

theorem budget_not_monotone:
  "positive_costs decimals_a \<and> positive_costs decimals_b \<and>
   dynamic_max_defense decimals_a 9 = Inr [decimals_a ! 3, decimals_a ! 2, decimals_a ! 1] \<and>
   dynamic_max_defense decimals_a 10 = Inr [decimals_a ! 2, decimals_a ! 1, decimals_a ! 0] \<and>
   sum_armor_vector [decimals_a ! 3, decimals_a ! 2, decimals_a ! 1]
     = Inr (7, Finite (1139973655678157 / 140737488355328)) \<and>
   sum_armor_vector [decimals_a ! 2, decimals_a ! 1, decimals_a ! 0]
     = Inr (10, Finite (4559894622712627 / 562949953421312)) \<and>
   (4559894622712627 / 562949953421312 :: rat) < 1139973655678157 / 140737488355328 \<and>
   dynamic_max_defense decimals_b 4 = Inr [decimals_b ! 3, decimals_b ! 2] \<and>
   dynamic_max_defense decimals_b 5 = Inr [decimals_b ! 3, decimals_b ! 1, decimals_b ! 0] \<and>
   exhaustive_max_defense decimals_b 4 = Inr [decimals_b ! 2, decimals_b ! 3] \<and>
   exhaustive_max_defense decimals_b 5 = Inr [decimals_b ! 0, decimals_b ! 1, decimals_b ! 3] \<and>
   defense_sum [decimals_b ! 0, decimals_b ! 1, decimals_b ! 3]
     < defense_sum [decimals_b ! 2, decimals_b ! 3]"
  by code_simp


end
